theory Spec2Isabelle
  imports Main "HOL-Library.AList" "HOL-Library.Signed_Division"
begin

section \<open>Data model of \<^verbatim>\<open>common/timing.cc\<close>\<close>

text \<open>
  The netlist is a pointer graph (cells, ports, nets).  Pointers are modelled as
  addresses into an explicit store: \<open>cell_at\<close> and \<open>net_at\<close> give the object behind a
  \<^verbatim>\<open>CellInfo*\<close> or \<^verbatim>\<open>NetInfo*\<close>, and the lists \<open>cells\<close> and \<open>nets\<close> give the iteration
  order of \<^verbatim>\<open>ctx->cells\<close> and \<^verbatim>\<open>ctx->nets\<close>.  A \<^verbatim>\<open>PortInfo*\<close> is the pair of the owning cell
  and the key of the port in \<^verbatim>\<open>cell->ports\<close>.

  \<^verbatim>\<open>IdString\<close> is an interned name; \<open>0\<close> stands for the empty \<^verbatim>\<open>IdString()\<close>.
  \<^verbatim>\<open>delay_t\<close> is a signed integer (picoseconds); arithmetic overflow, which is undefined
  behaviour in the source, is not modelled.  Division is C++ division, truncating
  towards zero (\<open>sdiv\<close>).
\<close>

type_synonym IdString = nat
type_synonym delay_t = int
type_synonym CellPtr = nat
type_synonym NetPtr = nat
type_synonym PortPtr = "CellPtr \<times> IdString"

datatype PortType = PORT_IN | PORT_OUT | PORT_INOUT

record PortInfo =
  port_name :: IdString
  port_net :: "NetPtr option"
  port_type :: PortType

record CellInfo =
  cell_type :: IdString
  cell_ports :: "(IdString \<times> PortInfo) list"

record PortRef =
  cell :: CellPtr
  port :: IdString
  budget :: delay_t

record NetInfo =
  users :: "PortRef list"

text \<open>
  The context holds the netlist and the architecture's delay model.  The delay model is
  declared outside this file, so its queries are fields of the record:
  \<^item> \<open>getPortClock c p\<close> is the clock of port \<open>p\<close> of cell \<open>c\<close>, \<open>0\<close> when unclocked;
  \<^item> \<open>getCellDelay c i o\<close> is \<open>Some d\<close> when the query returns true and sets a
    \<^verbatim>\<open>DelayInfo\<close> whose \<^verbatim>\<open>maxDelay()\<close> is \<open>d\<close>, and \<open>None\<close> when it returns false;
  \<^item> \<open>getNetinfoRouteDelay n c p\<close> is the route delay of the sink \<open>(c, p)\<close> of net \<open>n\<close>
    (the query reads the cell and the port of the \<^verbatim>\<open>PortRef\<close>, not its budget);
  \<^item> \<open>getBudgetOverride n c p\<close> is \<open>Some d\<close> when the query returns true and writes \<open>d\<close>
    to its reference parameter (as \<^verbatim>\<open>follow_net\<close> uses it), \<open>None\<close> when it returns false
    and leaves the parameter as it was;
  \<^item> \<open>getDelayPS d\<close> is \<^verbatim>\<open>int(ctx->getDelayNS(d) * 1000)\<close>.

  \<open>clk_period\<close> is \<^verbatim>\<open>delay_t(1.0e12 / ctx->target_freq)\<close>: the context stores the target
  frequency, the model stores the period that is read from it (see \<open>retarget\<close> below for
  the one place that writes the frequency).  \<open>delay_t_max\<close> is
  \<^verbatim>\<open>std::numeric_limits<delay_t>::max()\<close>, a constant of the architecture's \<^verbatim>\<open>delay_t\<close>.
\<close>

record Context =
  cells :: "CellPtr list"
  cell_at :: "CellPtr \<Rightarrow> CellInfo"
  nets :: "NetPtr list"
  net_at :: "NetPtr \<Rightarrow> NetInfo"
  clk_period :: delay_t
  id_sb_io :: IdString
  slack_redist_iter :: int
  auto_freq :: bool
  getPortClock :: "CellPtr \<Rightarrow> IdString \<Rightarrow> IdString"
  getCellDelay :: "CellPtr \<Rightarrow> IdString \<Rightarrow> IdString \<Rightarrow> delay_t option"
  getNetinfoRouteDelay :: "NetPtr \<Rightarrow> CellPtr \<Rightarrow> IdString \<Rightarrow> delay_t"
  getBudgetOverride :: "NetPtr \<Rightarrow> CellPtr \<Rightarrow> IdString \<Rightarrow> delay_t option"
  getDelayPS :: "delay_t \<Rightarrow> int"
  delay_t_max :: delay_t

record TimingData =
  max_arrival :: delay_t
  max_path_length :: nat
  min_remaining_budget :: delay_t

text \<open>
  \<^verbatim>\<open>struct Timing\<close>.  The pointer members \<^verbatim>\<open>crit_path\<close> and \<^verbatim>\<open>slack_histogram\<close> are
  \<open>None\<close> for \<^verbatim>\<open>nullptr\<close> and otherwise hold the pointed-to container.  The histogram is a
  \<^verbatim>\<open>std::map<int, unsigned>\<close>: an association list kept in ascending key order.
\<close>

record Timing =
  net_delays :: bool
  update :: bool
  min_slack :: delay_t
  current_path :: "PortRef list"
  crit_path :: "PortRef list option"
  slack_histogram :: "(int \<times> nat) list option"

datatype error = AssertionFailed | OutOfRange | DivisionByZero | IndexOutOfBounds

type_synonym fanin_map = "(PortPtr \<times> nat) list"
type_synonym net_data_map = "NetPtr \<Rightarrow> TimingData option"

section \<open>Helpers for the containers\<close>

text \<open>A loop whose body can fail stops at the first failure.\<close>

fun foldM :: "('a \<Rightarrow> 's \<Rightarrow> error + 's) \<Rightarrow> 'a list \<Rightarrow> 's \<Rightarrow> error + 's" where
  "foldM f [] s = Inr s"
| "foldM f (x # xs) s = (case f x s of Inl e \<Rightarrow> Inl e | Inr s' \<Rightarrow> foldM f xs s')"

text \<open>\<^verbatim>\<open>TimingData()\<close> and \<^verbatim>\<open>TimingData(max_arrival)\<close> value-initialise the other members.\<close>

definition TimingData_of :: "delay_t \<Rightarrow> TimingData" where
  "TimingData_of a = \<lparr>max_arrival = a, max_path_length = 0, min_remaining_budget = 0\<rparr>"

text \<open>\<^verbatim>\<open>unordered_map::emplace\<close> keeps an entry that is already there.\<close>

definition emplace :: "NetPtr \<Rightarrow> TimingData \<Rightarrow> net_data_map \<Rightarrow> net_data_map" where
  "emplace n d nd = (case nd n of None \<Rightarrow> nd(n \<mapsto> d) | Some _ \<Rightarrow> nd)"

text \<open>\<^verbatim>\<open>net_data[n]\<close> value-initialises a missing entry.\<close>

definition net_data_get :: "net_data_map \<Rightarrow> NetPtr \<Rightarrow> TimingData" where
  "net_data_get nd n = (case nd n of None \<Rightarrow> TimingData_of 0 | Some d \<Rightarrow> d)"

text \<open>\<^verbatim>\<open>port_fanin[o]++\<close> (the counter is an \<^verbatim>\<open>unsigned\<close>; it is taken not to reach \<open>2^32\<close>).\<close>

definition fanin_incr :: "PortPtr \<Rightarrow> fanin_map \<Rightarrow> fanin_map" where
  "fanin_incr k m = AList.update k (case map_of m k of None \<Rightarrow> 1 | Some v \<Rightarrow> v + 1) m"

section \<open>The dependency order (lines 149--217 of \<^verbatim>\<open>Timing::walk_paths\<close>)\<close>

definition input_ports :: "CellInfo \<Rightarrow> IdString list" where
  "input_ports c =
     map fst (filter (\<lambda>(k, p). port_net p \<noteq> None \<and> port_type p \<noteq> PORT_OUT) (cell_ports c))"

definition output_ports :: "CellInfo \<Rightarrow> (IdString \<times> PortInfo) list" where
  "output_ports c =
     filter (\<lambda>(k, p). port_net p \<noteq> None \<and> port_type p = PORT_OUT) (cell_ports c)"

text \<open>
  The body of \<^verbatim>\<open>for (auto o : output_ports)\<close>, lines 167--187.  A \<^verbatim>\<open>DelayInfo\<close> that
  \<^verbatim>\<open>getCellDelay\<close> leaves as it was constructed is taken to have \<^verbatim>\<open>maxDelay()\<close> zero.
\<close>

definition init_output ::
  "Context \<Rightarrow> CellPtr \<Rightarrow> bool \<Rightarrow> IdString list \<Rightarrow> IdString \<times> PortInfo \<Rightarrow>
   NetPtr list \<times> fanin_map \<times> net_data_map \<Rightarrow> NetPtr list \<times> fanin_map \<times> net_data_map" where
  "init_output ctx c is_io ins ko st =
     (case st of (order, fanin, nd) \<Rightarrow>
      (case ko of (k, p) \<Rightarrow>
      (case port_net p of
        None \<Rightarrow> st
      | Some n \<Rightarrow>
          let clock_domain = getPortClock ctx c (port_name p) in
          if clock_domain \<noteq> 0 then
            let clkToQ = (case getCellDelay ctx c clock_domain (port_name p) of
                            None \<Rightarrow> 0 | Some d \<Rightarrow> d)
            in (order @ [n], fanin, emplace n (TimingData_of clkToQ) nd)
          else
            let order1 = (if is_io then order @ [n] else order);
                nd1 = (if is_io then emplace n (TimingData_of 0) nd else nd);
                fanin1 = fold (\<lambda>i f. if getCellDelay ctx c i (port_name p) \<noteq> None
                                       then fanin_incr (c, k) f else f) ins fanin
            in (order1, fanin1, nd1))))"

definition init_cell ::
  "Context \<Rightarrow> CellPtr \<Rightarrow> NetPtr list \<times> fanin_map \<times> net_data_map \<Rightarrow>
   NetPtr list \<times> fanin_map \<times> net_data_map" where
  "init_cell ctx c st =
     fold (init_output ctx c (cell_type (cell_at ctx c) = id_sb_io ctx)
             (input_ports (cell_at ctx c)))
          (output_ports (cell_at ctx c)) st"

definition init_all :: "Context \<Rightarrow> NetPtr list \<times> fanin_map \<times> net_data_map" where
  "init_all ctx = fold (init_cell ctx) (cells ctx) ([], [], Map.empty)"

text \<open>
  The body of \<^verbatim>\<open>for (auto& port : usr.cell->ports)\<close>, lines 200--214.  The state is
  \<^verbatim>\<open>topographical_order\<close>, \<^verbatim>\<open>queue\<close> and \<^verbatim>\<open>port_fanin\<close>.  \<^verbatim>\<open>--it->second\<close> is an unsigned
  decrement: of \<open>0\<close> it gives \<open>2^32 - 1\<close>.
\<close>

definition kahn_port ::
  "Context \<Rightarrow> PortRef \<Rightarrow> IdString \<times> PortInfo \<Rightarrow>
   NetPtr list \<times> NetPtr list \<times> fanin_map \<Rightarrow> error + NetPtr list \<times> NetPtr list \<times> fanin_map" where
  "kahn_port ctx usr kp st =
     (case st of (order, queue, fanin) \<Rightarrow>
      case kp of (k, p) \<Rightarrow>
      if port_type p = PORT_OUT then
        (case port_net p of
           None \<Rightarrow> Inr st
         | Some n \<Rightarrow>
            (case getCellDelay ctx (cell usr) (port usr) k of
               None \<Rightarrow> Inr st
             | Some comb_delay \<Rightarrow>
                (case map_of fanin (cell usr, k) of
                   None \<Rightarrow> Inl AssertionFailed
                 | Some v \<Rightarrow>
                    let v' = (if v = 0 then 4294967295 else v - 1) in
                    if v' = 0 then
                      Inr (order @ [n], queue @ [n], AList.delete (cell usr, k) fanin)
                    else Inr (order, queue, AList.update (cell usr, k) v' fanin))))
      else Inr st)"

definition kahn_user ::
  "Context \<Rightarrow> PortRef \<Rightarrow> NetPtr list \<times> NetPtr list \<times> fanin_map \<Rightarrow>
   error + NetPtr list \<times> NetPtr list \<times> fanin_map" where
  "kahn_user ctx usr st =
     (if getPortClock ctx (cell usr) (port usr) \<noteq> 0 then Inr st
      else foldM (kahn_port ctx usr) (cell_ports (cell_at ctx (cell usr))) st)"

definition kahn_net ::
  "Context \<Rightarrow> NetPtr \<Rightarrow> NetPtr list \<times> NetPtr list \<times> fanin_map \<Rightarrow>
   error + NetPtr list \<times> NetPtr list \<times> fanin_map" where
  "kahn_net ctx n st = foldM (kahn_user ctx) (users (net_at ctx n)) st"


text \<open>
  The \<^verbatim>\<open>while (!queue.empty())\<close> loop.  Every net pushed on the queue erases an entry of
  \<^verbatim>\<open>port_fanin\<close>, so the loop ends.
\<close>

lemma length_update_present:
  "map_of al k = Some v \<Longrightarrow> length (AList.update k v' al) = length al"
  by (induction al) (auto split: if_splits)

lemma length_delete_present:
  "map_of al k = Some v \<Longrightarrow> length (AList.delete k al) < length al"
  by (induction al) (auto split: if_splits simp: less_Suc_eq_le length_delete_le)

lemma kahn_port_measure:
  "kahn_port ctx usr kp (order, queue, fanin) = Inr (order', queue', fanin') \<Longrightarrow>
   length queue' + length fanin' \<le> length queue + length fanin"
  by (auto simp: kahn_port_def Let_def length_update_present
           split: prod.splits if_splits option.splits dest: length_delete_present)

lemma foldM_measure:
  assumes "\<And>x s s'. f x s = Inr s' \<Longrightarrow> m s' \<le> (m s :: nat)"
  shows "foldM f xs s = Inr s' \<Longrightarrow> m s' \<le> m s"
proof (induction xs arbitrary: s)
  case Nil
  then show ?case by simp
next
  case (Cons x xs)
  then show ?case using assms by (fastforce split: sum.splits)
qed

lemma kahn_user_measure:
  assumes "kahn_user ctx usr st = Inr st'"
  shows "length (fst (snd st')) + length (snd (snd st'))
         \<le> length (fst (snd st)) + length (snd (snd st))"
proof (cases "getPortClock ctx (cell usr) (port usr) \<noteq> 0")
  case True
  with assms show ?thesis by (simp add: kahn_user_def)
next
  case False
  with assms have
    "foldM (kahn_port ctx usr) (cell_ports (cell_at ctx (cell usr))) st = Inr st'"
    by (simp add: kahn_user_def)
  then show ?thesis
    by (rule foldM_measure [where m = "\<lambda>s. length (fst (snd s)) + length (snd (snd s))", rotated])
       (auto dest: kahn_port_measure)
qed

lemma kahn_net_measure:
  assumes "kahn_net ctx n (order, queue, fanin) = Inr (order', queue', fanin')"
  shows "length queue' + length fanin' \<le> length queue + length fanin"
proof -
  have "length (fst (snd (order', queue', fanin'))) + length (snd (snd (order', queue', fanin')))
        \<le> length (fst (snd (order, queue, fanin))) + length (snd (snd (order, queue, fanin)))"
    using assms unfolding kahn_net_def
    by (rule foldM_measure [where m = "\<lambda>s. length (fst (snd s)) + length (snd (snd s))", rotated])
       (rule kahn_user_measure)
  then show ?thesis by simp
qed

function kahn_loop ::
  "Context \<Rightarrow> NetPtr list \<times> NetPtr list \<times> fanin_map \<Rightarrow> error + NetPtr list \<times> fanin_map" where
  "kahn_loop ctx (order, [], fanin) = Inr (order, fanin)"
| "kahn_loop ctx (order, n # queue, fanin) =
     (case kahn_net ctx n (order, queue, fanin) of
        Inl e \<Rightarrow> Inl e
      | Inr st \<Rightarrow> kahn_loop ctx st)"
  by pat_completeness auto
termination
proof (relation "measure (\<lambda>(ctx, order, queue, fanin). length queue + length fanin)")
  show "wf (measure (\<lambda>(ctx, order, queue, fanin). length queue + length fanin))"
    by simp
next
  fix ctx :: Context and order n queue fanin st
  assume "kahn_net ctx n (order, queue, fanin) = Inr st"
  then show "((ctx, st), ctx, order, n # queue, fanin)
             \<in> measure (\<lambda>(ctx, order, queue, fanin). length queue + length fanin)"
    by (cases st) (auto dest: kahn_net_measure)
qed

text \<open>
  Lines 149--217: the seeds, the in-degrees and the work-queue loop.  The result is
  \<^verbatim>\<open>topographical_order\<close>, what is left of \<^verbatim>\<open>port_fanin\<close>, and \<^verbatim>\<open>net_data\<close>.
\<close>

definition linearize :: "Context \<Rightarrow> error + NetPtr list \<times> fanin_map \<times> net_data_map" where
  "linearize ctx =
     (case init_all ctx of (order, fanin, nd) \<Rightarrow>
      (case kahn_loop ctx (order, order, fanin) of
        Inl e \<Rightarrow> Inl e
      | Inr (order', fanin') \<Rightarrow> Inr (order', fanin', nd)))"

section \<open>Forward propagation (lines 219--250)\<close>

definition forward_port ::
  "Context \<Rightarrow> PortRef \<Rightarrow> delay_t \<Rightarrow> bool \<Rightarrow> nat \<Rightarrow> IdString \<times> PortInfo \<Rightarrow>
   net_data_map \<Rightarrow> net_data_map" where
  "forward_port ctx usr usr_arrival budget_override net_length_plus_one kp nd =
     (case kp of (k, p) \<Rightarrow>
      if port_type p = PORT_OUT then
        (case port_net p of
           None \<Rightarrow> nd
         | Some n \<Rightarrow>
            (case getCellDelay ctx (cell usr) (port usr) k of
               None \<Rightarrow> nd
             | Some comb_delay \<Rightarrow>
                let data = net_data_get nd n;
                    data1 = data\<lparr>max_arrival := max (max_arrival data) (usr_arrival + comb_delay)\<rparr>;
                    data2 = (if \<not> budget_override
                             then data1\<lparr>max_path_length :=
                                          max (max_path_length data1) net_length_plus_one\<rparr>
                             else data1)
                in nd(n \<mapsto> data2)))
      else nd)"

definition forward_user ::
  "Context \<Rightarrow> NetPtr \<Rightarrow> delay_t \<Rightarrow> nat \<Rightarrow> PortRef \<Rightarrow> net_data_map \<Rightarrow> net_data_map" where
  "forward_user ctx net net_arrival net_length_plus_one usr nd =
     (if getPortClock ctx (cell usr) (port usr) \<noteq> 0 then nd
      else
        let route = getNetinfoRouteDelay ctx net (cell usr) (port usr);
            ov = getBudgetOverride ctx net (cell usr) (port usr);
            net_delay = (case ov of None \<Rightarrow> route | Some d \<Rightarrow> d);
            usr_arrival = net_arrival + net_delay
        in fold (forward_port ctx usr usr_arrival (ov \<noteq> None) net_length_plus_one)
                (cell_ports (cell_at ctx (cell usr))) nd)"

text \<open>\<^verbatim>\<open>net_data.at(net)\<close> throws \<^verbatim>\<open>std::out_of_range\<close> for a missing entry.\<close>

definition forward_net :: "Context \<Rightarrow> NetPtr \<Rightarrow> net_data_map \<Rightarrow> error + net_data_map" where
  "forward_net ctx net nd =
     (case nd net of
        None \<Rightarrow> Inl OutOfRange
      | Some d \<Rightarrow>
          Inr (fold (forward_user ctx net (max_arrival d) (max_path_length d + 1))
                    (users (net_at ctx net))
                    (nd(net \<mapsto> d\<lparr>min_remaining_budget := clk_period ctx\<rparr>))))"

definition forward_pass :: "Context \<Rightarrow> NetPtr list \<Rightarrow> net_data_map \<Rightarrow> error + net_data_map" where
  "forward_pass ctx order nd = foldM (forward_net ctx) order nd"

section \<open>Backward distribution (lines 252--288)\<close>

text \<open>\<^verbatim>\<open>(*slack_histogram)[slack_ps]++\<close> on a \<^verbatim>\<open>std::map\<close>.\<close>

fun hist_incr :: "int \<Rightarrow> (int \<times> nat) list \<Rightarrow> (int \<times> nat) list" where
  "hist_incr k [] = [(k, 1)]"
| "hist_incr k ((k', c) # h) =
     (if k = k' then (k', c + 1) # h
      else if k < k' then (k, 1) # (k', c) # h
      else (k', c) # hist_incr k h)"

text \<open>
  \<^verbatim>\<open>net_min_remaining_budget = std::min(net_min_remaining_budget, v)\<close>, through the
  reference into the entry of \<open>net\<close>.
\<close>

definition tighten :: "NetPtr \<Rightarrow> delay_t \<Rightarrow> net_data_map \<Rightarrow> net_data_map" where
  "tighten net v nd =
     (case nd net of
        None \<Rightarrow> nd
      | Some d \<Rightarrow> nd(net \<mapsto> d\<lparr>min_remaining_budget := min (min_remaining_budget d) v\<rparr>))"

text \<open>Lines 273--285: one output port of an unclocked sink's cell.\<close>

definition backward_port ::
  "Context \<Rightarrow> NetPtr \<Rightarrow> delay_t \<Rightarrow> delay_t \<Rightarrow> bool \<Rightarrow> IdString \<times> PortInfo \<Rightarrow>
   PortRef \<times> net_data_map \<Rightarrow> error + PortRef \<times> net_data_map" where
  "backward_port ctx net net_length_plus_one net_delay budget_override kp st =
     (case st of (usr, nd) \<Rightarrow>
      case kp of (k, p) \<Rightarrow>
      if port_type p = PORT_OUT then
        (case port_net p of
           None \<Rightarrow> Inr st
         | Some n \<Rightarrow>
            (case getCellDelay ctx (cell usr) (port usr) k of
               None \<Rightarrow> Inr st
             | Some comb_delay \<Rightarrow>
                (case nd n of
                   None \<Rightarrow> Inl OutOfRange
                 | Some d \<Rightarrow>
                    let path_budget = min_remaining_budget d;
                        budget_share = (if budget_override then 0
                                        else path_budget sdiv net_length_plus_one)
                    in Inr (usr\<lparr>budget := min (budget usr) (net_delay + budget_share)\<rparr>,
                            tighten net (path_budget - budget_share) nd))))
      else Inr st)"

text \<open>
  Lines 256--287: one sink of the net.  Here \<^verbatim>\<open>net_delay\<close> is declared \<^verbatim>\<open>const\<close> (line 257), so
  the override query cannot replace it as it does in the forward pass (line 228, where
  it is a plain \<^verbatim>\<open>auto\<close>): the backward pass keeps the route delay of a pinned sink, and
  uses only the boolean result of the query, for the share.
\<close>

definition backward_user ::
  "Context \<Rightarrow> NetPtr \<Rightarrow> delay_t \<Rightarrow> PortRef \<Rightarrow> net_data_map \<times> Timing \<Rightarrow>
   error + PortRef \<times> net_data_map \<times> Timing" where
  "backward_user ctx net net_length_plus_one usr st =
     (case st of (nd, tm) \<Rightarrow>
      let net_delay = getNetinfoRouteDelay ctx net (cell usr) (port usr);
          budget_override = (getBudgetOverride ctx net (cell usr) (port usr) \<noteq> None)
      in
      if getPortClock ctx (cell usr) (port usr) \<noteq> 0 then
        (case nd net of
           None \<Rightarrow> Inl OutOfRange
         | Some d \<Rightarrow>
            let net_arrival = max_arrival d;
                path_budget = clk_period ctx - (net_arrival + net_delay);
                budget_share = (if budget_override then 0
                                else path_budget sdiv net_length_plus_one)
            in Inr (usr\<lparr>budget := min (budget usr) (net_delay + budget_share)\<rparr>,
                    tighten net (path_budget - budget_share) nd,
                    tm\<lparr>min_slack := min (min_slack tm) path_budget,
                       slack_histogram :=
                         map_option (hist_incr (getDelayPS ctx path_budget))
                                    (slack_histogram tm)\<rparr>))
      else
        (case foldM (backward_port ctx net net_length_plus_one net_delay budget_override)
                    (cell_ports (cell_at ctx (cell usr))) (usr, nd) of
           Inl e \<Rightarrow> Inl e
         | Inr (usr', nd') \<Rightarrow> Inr (usr', nd', tm)))"

fun backward_users ::
  "Context \<Rightarrow> NetPtr \<Rightarrow> delay_t \<Rightarrow> PortRef list \<Rightarrow> net_data_map \<times> Timing \<Rightarrow>
   error + PortRef list \<times> net_data_map \<times> Timing" where
  "backward_users ctx net len1 [] st = Inr ([], st)"
| "backward_users ctx net len1 (usr # us) st =
     (case backward_user ctx net len1 usr st of
        Inl e \<Rightarrow> Inl e
      | Inr (usr', st') \<Rightarrow>
         (case backward_users ctx net len1 us st' of
            Inl e \<Rightarrow> Inl e
          | Inr (us', st'') \<Rightarrow> Inr (usr' # us', st'')))"

text \<open>
  One net of the reversed order.  The sinks' budgets are written into the netlist, so the
  context is part of the state.
\<close>

definition backward_net ::
  "NetPtr \<Rightarrow> Context \<times> net_data_map \<times> Timing \<Rightarrow> error + Context \<times> net_data_map \<times> Timing" where
  "backward_net net st =
     (case st of (ctx, nd, tm) \<Rightarrow>
      (case nd net of
        None \<Rightarrow> Inl OutOfRange
      | Some d \<Rightarrow>
         (case backward_users ctx net (int (max_path_length d + 1))
                 (users (net_at ctx net)) (nd, tm) of
            Inl e \<Rightarrow> Inl e
          | Inr (us', nd', tm') \<Rightarrow>
              Inr (ctx\<lparr>net_at := (net_at ctx)(net := (net_at ctx net)\<lparr>users := us'\<rparr>)\<rparr>,
                   nd', tm'))))"

definition backward_pass ::
  "NetPtr list \<Rightarrow> Context \<times> net_data_map \<times> Timing \<Rightarrow> error + Context \<times> net_data_map \<times> Timing" where
  "backward_pass order st = foldM backward_net (rev order) st"

section \<open>The entry points\<close>

text \<open>The constructor: \<^verbatim>\<open>min_slack(1.0e12 / ctx->target_freq)\<close>, converted to \<^verbatim>\<open>delay_t\<close>.\<close>

definition Timing_new ::
  "Context \<Rightarrow> bool \<Rightarrow> bool \<Rightarrow> PortRef list option \<Rightarrow> (int \<times> nat) list option \<Rightarrow> Timing" where
  "Timing_new ctx nd_flag upd cp sh =
     \<lparr>net_delays = nd_flag, update = upd, min_slack = clk_period ctx, current_path = [],
      crit_path = cp, slack_histogram = sh\<rparr>"

text \<open>
  \<^verbatim>\<open>Timing::walk_paths\<close> (the branch that is compiled).  It returns \<^verbatim>\<open>min_slack\<close>; the
  model also returns the \<^verbatim>\<open>Timing\<close> object, the netlist and \<^verbatim>\<open>net_data\<close> as they are at the
  end.
\<close>

definition walk_paths ::
  "Timing \<Rightarrow> Context \<Rightarrow> error + delay_t \<times> Timing \<times> Context \<times> net_data_map" where
  "walk_paths tm ctx =
     (case linearize ctx of
        Inl e \<Rightarrow> Inl e
      | Inr (order, fanin, nd) \<Rightarrow>
         (case forward_pass ctx order nd of
            Inl e \<Rightarrow> Inl e
          | Inr nd1 \<Rightarrow>
             (case backward_pass order (ctx, nd1, tm) of
                Inl e \<Rightarrow> Inl e
              | Inr (ctx', nd2, tm') \<Rightarrow> Inr (min_slack tm', tm', ctx', nd2))))"

text \<open>Lines 296--300: every sink of every net of \<^verbatim>\<open>ctx->nets\<close>.\<close>

definition reset_net :: "NetPtr \<Rightarrow> Context \<Rightarrow> Context" where
  "reset_net n ctx =
     ctx\<lparr>net_at := (net_at ctx)(n := (net_at ctx n)
            \<lparr>users := map (\<lambda>usr. usr\<lparr>budget := delay_t_max ctx\<rparr>) (users (net_at ctx n))\<rparr>)\<rparr>"

definition reset_budgets :: "Context \<Rightarrow> Context" where
  "reset_budgets ctx = fold reset_net (nets ctx) ctx"

text \<open>\<^verbatim>\<open>Timing::assign_budget\<close>.\<close>

definition Timing_assign_budget ::
  "Timing \<Rightarrow> Context \<Rightarrow> error + delay_t \<times> Timing \<times> Context \<times> net_data_map" where
  "Timing_assign_budget tm ctx = walk_paths tm (reset_budgets ctx)"

text \<open>
  The target frequency is a \<^verbatim>\<open>float\<close> (\<^verbatim>\<open>float target_freq\<close>, declared outside this file), and
  the period is read from it as \<^verbatim>\<open>delay_t(1.0e12 / ctx->target_freq)\<close>.  Writing
  \<^verbatim>\<open>1e12 / x\<close> to it and reading the period back does not always give \<open>x\<close>: the quotient is
  computed in \<^verbatim>\<open>double\<close> (53 significant bits) and rounded to \<^verbatim>\<open>float\<close> (24 bits), the second
  quotient is computed in \<^verbatim>\<open>double\<close> and truncated.  A positive floating-point number is
  modelled as a significand and a binary exponent, \<open>(m, e)\<close> for \<open>m * 2^e\<close>.

  \<open>bitlen n\<close> is the number of binary digits of \<open>n\<close>, and \<open>round_sig prec num den\<close> is the
  quotient \<open>num / den\<close> of two positive integers rounded to \<open>prec\<close> significant bits, to
  nearest and ties to even.
\<close>

function bitlen :: "int \<Rightarrow> nat" where
  "bitlen n = (if n \<le> 0 then 0 else Suc (bitlen (n div 2)))"
  by pat_completeness auto
termination
  by (relation "measure nat") auto

declare bitlen.simps [simp del]

definition round_sig :: "nat \<Rightarrow> int \<Rightarrow> int \<Rightarrow> int \<times> int" where
  "round_sig prec num den =
     (let k = int (bitlen num) - int (bitlen den);
          fl = (if (if 0 \<le> k then den * 2 ^ nat k \<le> num else den \<le> num * 2 ^ nat (- k))
                then k else k - 1);
          e = fl - (int prec - 1);
          n' = (if 0 \<le> e then num else num * 2 ^ nat (- e));
          d' = (if 0 \<le> e then den * 2 ^ nat e else den);
          m = n' div d';
          r = n' mod d'
      in (if d' < 2 * r \<or> (2 * r = d' \<and> odd m) then m + 1 else m, e))"

text \<open>\<^verbatim>\<open>ctx->target_freq = 1e12 / x\<close> for a positive \<^verbatim>\<open>delay_t\<close> \<open>x\<close>.\<close>

definition target_freq_of :: "delay_t \<Rightarrow> int \<times> int" where
  "target_freq_of x =
     (case round_sig 53 (10 ^ 12) x of (m, e) \<Rightarrow>
        round_sig 24 (if 0 \<le> e then m * 2 ^ nat e else m) (if 0 \<le> e then 1 else 2 ^ nat (- e)))"

text \<open>\<^verbatim>\<open>delay_t(1.0e12 / ctx->target_freq)\<close> for a positive frequency.\<close>

definition period_of_target_freq :: "int \<times> int \<Rightarrow> delay_t" where
  "period_of_target_freq f =
     (case f of (m, e) \<Rightarrow>
      (case round_sig 53 (if 0 \<le> e then 10 ^ 12 else 10 ^ 12 * 2 ^ nat (- e))
                         (if 0 \<le> e then m * 2 ^ nat e else m) of
         (q, e') \<Rightarrow> if 0 \<le> e' then q * 2 ^ nat e' else q div 2 ^ nat (- e')))"

text \<open>
  The period that is read back after \<^verbatim>\<open>ctx->target_freq = 1e12 / x\<close>.  For \<open>x = 0\<close> the
  frequency is infinite and the period read back is \<open>0\<close>; division and truncation are
  symmetric in the sign.
\<close>

definition retarget :: "delay_t \<Rightarrow> delay_t" where
  "retarget x =
     (if x = 0 then 0
      else if 0 < x then period_of_target_freq (target_freq_of x)
      else - period_of_target_freq (target_freq_of (- x)))"

text \<open>
  \<^verbatim>\<open>assign_budget(ctx, quiet)\<close>, without its log output.  The context of the model holds
  the period, so the assignment of lines 338--339 stores the period that the next read
  of \<^verbatim>\<open>target_freq\<close> gives.
\<close>

definition assign_budget :: "Context \<Rightarrow> error + Context" where
  "assign_budget ctx =
     (case Timing_assign_budget (Timing_new ctx (slack_redist_iter ctx > 0) True None None) ctx of
        Inl e \<Rightarrow> Inl e
      | Inr (ms, tm, ctx', nd) \<Rightarrow>
          Inr (if auto_freq ctx' \<and> slack_redist_iter ctx' > 0
               then ctx'\<lparr>clk_period := retarget (clk_period ctx' - min_slack tm)\<rparr>
               else ctx'))"

section \<open>The report of \<^verbatim>\<open>timing_analysis\<close>\<close>

text \<open>
  Lines 399--419.  \<^verbatim>\<open>num_bins\<close> is unsigned, so the differences of the \<^verbatim>\<open>int\<close> keys are
  converted to \<^verbatim>\<open>unsigned\<close> before the divisions.  A division by zero and an index past the
  \<open>21\<close> bins are undefined behaviour in the source; the model returns them as errors.
\<close>

definition to_unsigned :: "int \<Rightarrow> nat" where
  "to_unsigned x = nat (x mod 4294967296)"

definition histogram_sample ::
  "int \<Rightarrow> nat \<Rightarrow> int \<times> nat \<Rightarrow> nat list \<times> nat \<Rightarrow> error + nat list \<times> nat" where
  "histogram_sample min_slack_ps bin_size kc st =
     (case st of (bins, max_freq) \<Rightarrow>
      case kc of (k, c) \<Rightarrow>
      if bin_size = 0 then Inl DivisionByZero
      else
        let idx = to_unsigned (k - min_slack_ps) div bin_size in
        if idx \<ge> length bins then Inl IndexOutOfBounds
        else
          let bin = (bins ! idx + c) mod 4294967296
          in Inr (bins[idx := bin], max max_freq bin))"

definition histogram_bins :: "(int \<times> nat) list \<Rightarrow> error + nat list \<times> nat" where
  "histogram_bins h =
     (let min_slack_ps = fst (hd h);
          max_slack_ps = fst (last h);
          bin_size = to_unsigned (max_slack_ps - min_slack_ps) div 20
      in foldM (histogram_sample min_slack_ps bin_size) h (replicate 21 0, 0))"

text \<open>The legend's divisor and the length of each bar.\<close>

definition histogram_render :: "(int \<times> nat) list \<Rightarrow> error + nat \<times> nat list" where
  "histogram_render h =
     (case histogram_bins h of
        Inl e \<Rightarrow> Inl e
      | Inr (bins, max_freq) \<Rightarrow>
          let bar_width = min 60 max_freq in
          if bar_width = 0 then Inl DivisionByZero
          else Inr (max_freq div bar_width,
                    map (\<lambda>b. (b * bar_width) mod 4294967296 div max_freq) bins))"

datatype path_report = PathNotRequested | NoTimingPaths | CriticalPath "PortRef list"

record Report =
  report_min_slack :: delay_t
  report_path :: path_report
  report_histogram :: "(nat \<times> nat list) option"

text \<open>
  \<^verbatim>\<open>timing_analysis(ctx, print_histogram, print_path)\<close>.  The local vectors \<^verbatim>\<open>crit_path\<close> and
  \<^verbatim>\<open>slack_histogram\<close> start empty and are handed to \<^verbatim>\<open>Timing\<close> by pointer when requested.
  Of the critical-path report the model keeps the list of sinks that is printed.
\<close>

definition timing_analysis :: "Context \<Rightarrow> bool \<Rightarrow> bool \<Rightarrow> error + Context \<times> Report" where
  "timing_analysis ctx print_histogram print_path =
     (case walk_paths (Timing_new ctx True False
                         (if print_path then Some [] else None)
                         (if print_histogram then Some [] else None)) ctx of
        Inl e \<Rightarrow> Inl e
      | Inr (ms, tm, ctx', nd) \<Rightarrow>
          let path = (if print_path
                      then (case crit_path tm of
                              None \<Rightarrow> NoTimingPaths
                            | Some [] \<Rightarrow> NoTimingPaths
                            | Some (s # ss) \<Rightarrow> CriticalPath (s # ss))
                      else PathNotRequested)
          in
          (case (if print_histogram then slack_histogram tm else None) of
             None \<Rightarrow> Inr (ctx', \<lparr>report_min_slack = ms, report_path = path,
                                 report_histogram = None\<rparr>)
           | Some [] \<Rightarrow> Inr (ctx', \<lparr>report_min_slack = ms, report_path = path,
                                    report_histogram = None\<rparr>)
           | Some (s # ss) \<Rightarrow>
              (case histogram_render (s # ss) of
                 Inl e \<Rightarrow> Inl e
               | Inr r \<Rightarrow> Inr (ctx', \<lparr>report_min_slack = ms, report_path = path,
                                     report_histogram = Some r\<rparr>))))"

section \<open>Example netlists\<close>

text \<open>
  A register \<open>1\<close> (output \<open>2\<close>, clocked on \<open>9\<close>, clock-to-output delay \<open>500\<close>) drives net \<open>10\<close>;
  a buffer \<open>2\<close> (input \<open>1\<close>, output \<open>2\<close>, delay \<open>2000\<close>) takes net \<open>10\<close> to net \<open>11\<close>; a register
  \<open>3\<close> reads net \<open>11\<close> on its clocked input \<open>1\<close>.  The route delays are \<open>300\<close> on net \<open>10\<close> and
  \<open>100\<close> on net \<open>11\<close>, the period is \<open>10000\<close>, and both sinks hold a budget of \<open>9000\<close>.
\<close>

definition ex_reg1 :: CellInfo where
  "ex_reg1 = \<lparr>cell_type = 1,
     cell_ports = [(2, \<lparr>port_name = 2, port_net = Some 10, port_type = PORT_OUT\<rparr>)]\<rparr>"

definition ex_buf :: CellInfo where
  "ex_buf = \<lparr>cell_type = 2,
     cell_ports = [(1, \<lparr>port_name = 1, port_net = Some 10, port_type = PORT_IN\<rparr>),
                   (2, \<lparr>port_name = 2, port_net = Some 11, port_type = PORT_OUT\<rparr>)]\<rparr>"

definition ex_reg2 :: CellInfo where
  "ex_reg2 = \<lparr>cell_type = 1,
     cell_ports = [(1, \<lparr>port_name = 1, port_net = Some 11, port_type = PORT_IN\<rparr>)]\<rparr>"

definition ex_pipeline :: Context where
  "ex_pipeline =
     \<lparr>cells = [1, 2, 3],
      cell_at = (\<lambda>c. if c = 1 then ex_reg1 else if c = 2 then ex_buf else ex_reg2),
      nets = [10, 11],
      net_at = (\<lambda>n. if n = 10 then \<lparr>users = [\<lparr>cell = 2, port = 1, budget = 9000\<rparr>]\<rparr>
                    else if n = 11 then \<lparr>users = [\<lparr>cell = 3, port = 1, budget = 9000\<rparr>]\<rparr>
                    else \<lparr>users = []\<rparr>),
      clk_period = 10000, id_sb_io = 7, slack_redist_iter = 0, auto_freq = False,
      getPortClock = (\<lambda>c p. if c = 2 then 0 else 9),
      getCellDelay = (\<lambda>c i q. if c = 1 \<and> i = 9 \<and> q = 2 then Some 500
                              else if c = 2 \<and> i = 1 \<and> q = 2 then Some 2000 else None),
      getNetinfoRouteDelay = (\<lambda>n c p. if n = 10 then 300 else 100),
      getBudgetOverride = (\<lambda>n c p. None),
      getDelayPS = (\<lambda>d. d),
      delay_t_max = 2147483647\<rparr>"

text \<open>The example with both connections pinned: \<open>190\<close> on net \<open>10\<close>, \<open>40\<close> on net \<open>11\<close>.\<close>

definition ex_override :: Context where
  "ex_override =
     ex_pipeline\<lparr>getBudgetOverride := (\<lambda>n c p. if n = 10 then Some 190
                                               else if n = 11 then Some 40 else None)\<rparr>"

text \<open>
  The example at a period of \<open>1000\<close>, which it misses, with no frequency fixed by the user
  and one routing iteration done.
\<close>

definition ex_auto :: Context where
  "ex_auto = ex_pipeline\<lparr>clk_period := 1000, slack_redist_iter := 1, auto_freq := True\<rparr>"





text \<open>
  A net that feeds both a register and further logic: register \<open>1\<close> drives net \<open>10\<close>, the
  buffer \<open>2\<close> takes it to net \<open>11\<close>, which is read by register \<open>3\<close> (over a route of \<open>5000\<close>)
  and by the buffer \<open>4\<close>; the buffer \<open>4\<close> drives net \<open>12\<close> into register \<open>5\<close>.
\<close>

definition ex_buf2 :: CellInfo where
  "ex_buf2 = \<lparr>cell_type = 2,
     cell_ports = [(1, \<lparr>port_name = 1, port_net = Some 11, port_type = PORT_IN\<rparr>),
                   (2, \<lparr>port_name = 2, port_net = Some 12, port_type = PORT_OUT\<rparr>)]\<rparr>"

definition ex_reg3 :: CellInfo where
  "ex_reg3 = \<lparr>cell_type = 1,
     cell_ports = [(1, \<lparr>port_name = 1, port_net = Some 12, port_type = PORT_IN\<rparr>)]\<rparr>"

definition ex_fanout :: Context where
  "ex_fanout =
     \<lparr>cells = [1, 2, 3, 4, 5],
      cell_at = (\<lambda>c. if c = 1 then ex_reg1 else if c = 2 then ex_buf else if c = 3 then ex_reg2
                     else if c = 4 then ex_buf2 else ex_reg3),
      nets = [10, 11, 12],
      net_at = (\<lambda>n. if n = 10 then \<lparr>users = [\<lparr>cell = 2, port = 1, budget = 9000\<rparr>]\<rparr>
                    else if n = 11 then \<lparr>users = [\<lparr>cell = 3, port = 1, budget = 9000\<rparr>,
                                                    \<lparr>cell = 4, port = 1, budget = 9000\<rparr>]\<rparr>
                    else if n = 12 then \<lparr>users = [\<lparr>cell = 5, port = 1, budget = 9000\<rparr>]\<rparr>
                    else \<lparr>users = []\<rparr>),
      clk_period = 10000, id_sb_io = 7, slack_redist_iter = 0, auto_freq = False,
      getPortClock = (\<lambda>c p. if c = 2 \<or> c = 4 then 0 else 9),
      getCellDelay = (\<lambda>c i q. if c = 1 \<and> i = 9 \<and> q = 2 then Some 500
                              else if c = 2 \<and> i = 1 \<and> q = 2 then Some 2000
                              else if c = 4 \<and> i = 1 \<and> q = 2 then Some 1000 else None),
      getNetinfoRouteDelay = (\<lambda>n c p. if n = 10 then 300 else if n = 11 \<and> c = 3 then 5000 else 100),
      getBudgetOverride = (\<lambda>n c p. None),
      getDelayPS = (\<lambda>d. d),
      delay_t_max = 2147483647\<rparr>"

text \<open>
  The example without a seed: no output is clocked and there is no IO cell, as when cell
  \<open>1\<close> is a constant driver.
\<close>

definition ex_const :: Context where
  "ex_const = ex_pipeline\<lparr>getPortClock := (\<lambda>c p. if c = 3 then 9 else 0)\<rparr>"

text \<open>
  An IO cell with a combinational path from its input to its output: register \<open>1\<close> drives
  net \<open>10\<close>, the buffer \<open>2\<close> takes it to net \<open>11\<close>, and the IO cell \<open>4\<close> takes net \<open>11\<close> to net \<open>13\<close>.
\<close>

definition ex_pad :: CellInfo where
  "ex_pad = \<lparr>cell_type = 7,
     cell_ports = [(1, \<lparr>port_name = 1, port_net = Some 11, port_type = PORT_IN\<rparr>),
                   (2, \<lparr>port_name = 2, port_net = Some 13, port_type = PORT_OUT\<rparr>)]\<rparr>"

definition ex_io :: Context where
  "ex_io =
     \<lparr>cells = [1, 2, 4],
      cell_at = (\<lambda>c. if c = 1 then ex_reg1 else if c = 2 then ex_buf else ex_pad),
      nets = [10, 11, 13],
      net_at = (\<lambda>n. if n = 10 then \<lparr>users = [\<lparr>cell = 2, port = 1, budget = 9000\<rparr>]\<rparr>
                    else if n = 11 then \<lparr>users = [\<lparr>cell = 4, port = 1, budget = 9000\<rparr>]\<rparr>
                    else \<lparr>users = []\<rparr>),
      clk_period = 10000, id_sb_io = 7, slack_redist_iter = 0, auto_freq = False,
      getPortClock = (\<lambda>c p. if c = 1 then 9 else 0),
      getCellDelay = (\<lambda>c i q. if c = 1 \<and> i = 9 \<and> q = 2 then Some 500
                              else if c = 2 \<and> i = 1 \<and> q = 2 then Some 2000
                              else if c = 4 \<and> i = 1 \<and> q = 2 then Some 1000 else None),
      getNetinfoRouteDelay = (\<lambda>n c p. 300),
      getBudgetOverride = (\<lambda>n c p. None),
      getDelayPS = (\<lambda>d. d),
      delay_t_max = 2147483647\<rparr>"

lemmas model_defs =
  linearize_def init_all_def init_cell_def init_output_def input_ports_def output_ports_def
  fanin_incr_def kahn_net_def kahn_user_def kahn_port_def emplace_def TimingData_of_def
  forward_pass_def forward_net_def forward_user_def forward_port_def net_data_get_def
  backward_pass_def backward_net_def backward_user_def backward_port_def tighten_def
  walk_paths_def Timing_new_def reset_budgets_def reset_net_def Timing_assign_budget_def
  assign_budget_def timing_analysis_def histogram_render_def histogram_bins_def
  histogram_sample_def to_unsigned_def

lemmas ex_defs = ex_pipeline_def ex_reg1_def ex_buf_def ex_reg2_def


lemmas ex_fanout_defs = ex_fanout_def ex_reg1_def ex_buf_def ex_reg2_def ex_buf2_def ex_reg3_def

lemmas ex_io_defs = ex_io_def ex_reg1_def ex_buf_def ex_pad_def

section \<open>Vocabulary of the properties\<close>

text \<open>
  A connection is a sink \<open>(cell, port)\<close> of a net.  Its realized delay is the override
  when there is one and the route delay otherwise.  A terminus is a connection into a
  clocked port; its slack is the period minus the arrival time at its net minus its
  realized delay.
\<close>

definition sinks :: "Context \<Rightarrow> NetPtr \<Rightarrow> (CellPtr \<times> IdString) list" where
  "sinks ctx n = map (\<lambda>u. (cell u, port u)) (users (net_at ctx n))"

definition realized_delay :: "Context \<Rightarrow> NetPtr \<Rightarrow> CellPtr \<Rightarrow> IdString \<Rightarrow> delay_t" where
  "realized_delay ctx n c p =
     (case getBudgetOverride ctx n c p of None \<Rightarrow> getNetinfoRouteDelay ctx n c p | Some d \<Rightarrow> d)"

definition termini :: "Context \<Rightarrow> NetPtr list \<Rightarrow> (NetPtr \<times> CellPtr \<times> IdString) list" where
  "termini ctx order =
     concat (map (\<lambda>n. map (Pair n) (filter (\<lambda>(c, p). getPortClock ctx c p \<noteq> 0) (sinks ctx n))) order)"


text \<open>
  The \<^verbatim>\<open>path_budget\<close> that line 261 computes at a terminus: the period minus the arrival time
  at its net and the route delay of the connection.
\<close>

definition terminus_path_budget ::
  "Context \<Rightarrow> net_data_map \<Rightarrow> NetPtr \<times> CellPtr \<times> IdString \<Rightarrow> delay_t" where
  "terminus_path_budget ctx nd t =
     (case t of (n, c, p) \<Rightarrow>
        clk_period ctx - (max_arrival (net_data_get nd n) + getNetinfoRouteDelay ctx n c p))"



text \<open>
  Two contexts are the same netlist when they differ in the budgets of the sinks only.
\<close>

definition same_netlist :: "Context \<Rightarrow> Context \<Rightarrow> bool" where
  "same_netlist c c' \<longleftrightarrow> c' = c\<lparr>net_at := net_at c'\<rparr> \<and> (\<forall>n. sinks c' n = sinks c n)"

text \<open>
  The backward pass leaves the entries of \<^verbatim>\<open>net_data\<close> in place and only lowers
  \<^verbatim>\<open>min_remaining_budget\<close>.
\<close>

definition nd_le :: "net_data_map \<Rightarrow> net_data_map \<Rightarrow> bool" where
  "nd_le nd nd' \<longleftrightarrow>
     (\<forall>n. case nd n of
            None \<Rightarrow> nd' n = None
          | Some d \<Rightarrow> (\<exists>d'. nd' n = Some d' \<and> max_arrival d' = max_arrival d
                          \<and> max_path_length d' = max_path_length d
                          \<and> min_remaining_budget d' \<le> min_remaining_budget d))"

text \<open>\<open>b\<close> is the least of \<open>a\<close> and the members of \<open>S\<close>.\<close>

definition glb_step :: "delay_t \<Rightarrow> delay_t set \<Rightarrow> delay_t \<Rightarrow> bool" where
  "glb_step a S b \<longleftrightarrow> b \<le> a \<and> (\<forall>x\<in>S. b \<le> x) \<and> (b = a \<or> b \<in> S)"

text \<open>
  The combinational delays from input \<open>i\<close> of cell \<open>c\<close> to those of the ports \<open>ps\<close> that are
  outputs driving net \<open>n\<close>.
\<close>

definition comb_targets ::
  "Context \<Rightarrow> CellPtr \<Rightarrow> IdString \<Rightarrow> (IdString \<times> PortInfo) list \<Rightarrow> NetPtr \<Rightarrow> delay_t set" where
  "comb_targets ctx c i ps n =
     {d. \<exists>k p. (k, p) \<in> set ps \<and> port_type p = PORT_OUT \<and> port_net p = Some n
               \<and> getCellDelay ctx c i k = Some d}"

text \<open>
  An output that starts the order: it has a clock, or its cell is an IO cell
  (line 158, lines 169--179).
\<close>

definition seed_port :: "Context \<Rightarrow> CellPtr \<Rightarrow> IdString \<Rightarrow> bool" where
  "seed_port ctx c k \<longleftrightarrow> getPortClock ctx c k \<noteq> 0 \<or> cell_type (cell_at ctx c) = id_sb_io ctx"

text \<open>
  A consistent netlist, as the pointer structure of the source keeps it: \<^verbatim>\<open>ctx->cells\<close> and
  \<^verbatim>\<open>cell->ports\<close> are maps, so their keys are distinct; a port is stored under its own name
  and its net is a net of the design; the users of a net are distinct input ports of cells
  of the design that are bound to that net; a net has one driver.  The last conjunct is
  about the delay model: an output that starts the order has no combinational path from
  an unclocked input of its cell (such a net would be appended a second time when its
  in-degree reaches zero).
\<close>

definition wf_netlist :: "Context \<Rightarrow> bool" where
  "wf_netlist ctx \<longleftrightarrow>
     distinct (cells ctx)
     \<and> (\<forall>c\<in>set (cells ctx). distinct (map fst (cell_ports (cell_at ctx c))))
     \<and> (\<forall>c\<in>set (cells ctx). \<forall>(k, p)\<in>set (cell_ports (cell_at ctx c)).
           port_name p = k \<and> (\<forall>n. port_net p = Some n \<longrightarrow> n \<in> set (nets ctx)))
     \<and> (\<forall>n\<in>set (nets ctx). distinct (sinks ctx n))
     \<and> (\<forall>n\<in>set (nets ctx). \<forall>(c, i)\<in>set (sinks ctx n).
           c \<in> set (cells ctx)
           \<and> (\<exists>p. (i, p) \<in> set (cell_ports (cell_at ctx c)) \<and> port_net p = Some n
                    \<and> port_type p \<noteq> PORT_OUT))
     \<and> (\<forall>c\<in>set (cells ctx). \<forall>c'\<in>set (cells ctx).
          \<forall>(k, p)\<in>set (output_ports (cell_at ctx c)).
          \<forall>(k', p')\<in>set (output_ports (cell_at ctx c')).
            port_net p = port_net p' \<longrightarrow> c = c' \<and> k = k')
     \<and> (\<forall>c\<in>set (cells ctx). \<forall>(k, p)\<in>set (output_ports (cell_at ctx c)).
           seed_port ctx c k \<longrightarrow>
           (\<forall>i\<in>set (input_ports (cell_at ctx c)).
              getPortClock ctx c i = 0 \<longrightarrow> getCellDelay ctx c i k = None))"

text \<open>
  Net \<open>a\<close> feeds net \<open>b\<close> combinationally: an unclocked sink of \<open>a\<close> has a combinational path
  to an output of its cell that drives \<open>b\<close>.
\<close>

definition comb_edge :: "Context \<Rightarrow> NetPtr \<Rightarrow> NetPtr \<Rightarrow> bool" where
  "comb_edge ctx a b \<longleftrightarrow>
     (\<exists>(c, i)\<in>set (sinks ctx a).
        getPortClock ctx c i = 0 \<and> comb_targets ctx c i (cell_ports (cell_at ctx c)) b \<noteq> {})"

text \<open>
  The loop body of lines 200--214 decrements a counter for the port \<open>kp\<close> when it is reached
  from input \<open>i\<close> of cell \<open>c\<close>.
\<close>

definition fires :: "Context \<Rightarrow> CellPtr \<Rightarrow> IdString \<Rightarrow> IdString \<times> PortInfo \<Rightarrow> bool" where
  "fires ctx c i kp \<longleftrightarrow>
     port_type (snd kp) = PORT_OUT \<and> port_net (snd kp) \<noteq> None
     \<and> getCellDelay ctx c i (fst kp) \<noteq> None"

text \<open>
  The decrements are named by the cell, the input and the output key: those of one scan of
  the ports \<open>ps\<close>, of one sink, and of all sinks of a net.
\<close>

definition events_of_ports ::
  "Context \<Rightarrow> CellPtr \<Rightarrow> IdString \<Rightarrow> (IdString \<times> PortInfo) list \<Rightarrow> (CellPtr \<times> IdString \<times> IdString) set" where
  "events_of_ports ctx c i ps = (\<lambda>kp. (c, i, fst kp)) ` {kp \<in> set ps. fires ctx c i kp}"

definition events_of_sink :: "Context \<Rightarrow> CellPtr \<times> IdString \<Rightarrow> (CellPtr \<times> IdString \<times> IdString) set" where
  "events_of_sink ctx ci =
     (if getPortClock ctx (fst ci) (snd ci) \<noteq> 0 then {}
      else events_of_ports ctx (fst ci) (snd ci) (cell_ports (cell_at ctx (fst ci))))"

definition events_of_net :: "Context \<Rightarrow> NetPtr \<Rightarrow> (CellPtr \<times> IdString \<times> IdString) set" where
  "events_of_net ctx n = (\<Union>ci\<in>set (sinks ctx n). events_of_sink ctx ci)"

text \<open>
  The inputs counted in the in-degree of output \<open>k\<close> of cell \<open>c\<close> (lines 180--185), and those
  of them not yet decremented once the events \<open>F\<close> have happened.
\<close>

definition counted :: "Context \<Rightarrow> CellPtr \<Rightarrow> IdString \<Rightarrow> IdString set" where
  "counted ctx c k = {i \<in> set (input_ports (cell_at ctx c)). getCellDelay ctx c i k \<noteq> None}"

definition pending ::
  "Context \<Rightarrow> (CellPtr \<times> IdString \<times> IdString) set \<Rightarrow> CellPtr \<Rightarrow> IdString \<Rightarrow> IdString set" where
  "pending ctx F c k = {i \<in> counted ctx c k. (c, i, k) \<notin> F}"

text \<open>
  An output that has a counter: a bound, unclocked output of a cell of the design.
\<close>

definition tracked :: "Context \<Rightarrow> CellPtr \<Rightarrow> IdString \<Rightarrow> bool" where
  "tracked ctx c k \<longleftrightarrow>
     c \<in> set (cells ctx) \<and> k \<in> fst ` set (output_ports (cell_at ctx c)) \<and> getPortClock ctx c k = 0"

text \<open>
  What \<^verbatim>\<open>port_fanin\<close> holds once the events \<open>F\<close> have happened: the number of pending inputs
  of every tracked output that has one, and no entry otherwise.
\<close>

definition fanin_spec ::
  "Context \<Rightarrow> (CellPtr \<times> IdString \<times> IdString) set \<Rightarrow> PortPtr \<Rightarrow> nat option" where
  "fanin_spec ctx F q =
     (if tracked ctx (fst q) (snd q) \<and> pending ctx F (fst q) (snd q) \<noteq> {}
      then Some (card (pending ctx F (fst q) (snd q))) else None)"

text \<open>
  A net appended by the initialisation, and a net whose driver has had all its counted
  inputs decremented.
\<close>

definition seed_net :: "Context \<Rightarrow> NetPtr \<Rightarrow> bool" where
  "seed_net ctx n \<longleftrightarrow>
     (\<exists>c\<in>set (cells ctx). \<exists>(k, p)\<in>set (output_ports (cell_at ctx c)).
        seed_port ctx c k \<and> port_net p = Some n)"

definition ready_net :: "Context \<Rightarrow> (CellPtr \<times> IdString \<times> IdString) set \<Rightarrow> NetPtr \<Rightarrow> bool" where
  "ready_net ctx F n \<longleftrightarrow>
     (\<exists>c\<in>set (cells ctx). \<exists>(k, p)\<in>set (output_ports (cell_at ctx c)).
        port_net p = Some n \<and> getPortClock ctx c k = 0
        \<and> counted ctx c k \<noteq> {} \<and> pending ctx F c k = {})"

text \<open>
  Every net of \<open>order\<close> comes after the nets of the design that feed it
  combinationally.
\<close>

definition precedes_ok :: "Context \<Rightarrow> NetPtr list \<Rightarrow> bool" where
  "precedes_ok ctx order \<longleftrightarrow>
     (\<forall>j<length order. \<forall>a\<in>set (nets ctx). comb_edge ctx a (order ! j) \<longrightarrow> a \<in> set (take j order))"

text \<open>
  The invariant of the loop of lines 192--217: \<open>dn\<close> are the nets already taken from the
  queue and \<open>F\<close> the decrements made so far.  The order holds the seeds and the nets whose
  driver has been decremented to zero, and no other net.
\<close>

definition kahn_inv ::
  "Context \<Rightarrow> NetPtr list \<Rightarrow> (CellPtr \<times> IdString \<times> IdString) set \<Rightarrow>
   NetPtr list \<times> NetPtr list \<times> fanin_map \<Rightarrow> bool" where
  "kahn_inv ctx dn F st \<longleftrightarrow>
     (case st of (order, queue, fanin) \<Rightarrow>
        order = dn @ queue \<and> distinct order \<and> set order \<subseteq> set (nets ctx)
        \<and> map_of fanin = fanin_spec ctx F
        \<and> (\<forall>n\<in>set order. seed_net ctx n \<or> ready_net ctx F n)
        \<and> precedes_ok ctx order
        \<and> F \<subseteq> (\<Union>n\<in>set dn. events_of_net ctx n)
        \<and> (\<forall>n. seed_net ctx n \<longrightarrow> n \<in> set order)
        \<and> (\<forall>n. ready_net ctx F n \<longrightarrow> n \<in> set order))"

text \<open>
  \<open>m\<close> increments of a counter that \<^verbatim>\<open>operator[]\<close> creates at zero.
\<close>

definition bump :: "nat option \<Rightarrow> nat \<Rightarrow> nat option" where
  "bump v m = (if m = 0 then v else Some (case v of None \<Rightarrow> m | Some x \<Rightarrow> x + m))"

text \<open>
  The nets that the initialisation appends for cell \<open>c\<close>, in the order of its outputs.
\<close>

definition seeds_of_cell :: "Context \<Rightarrow> CellPtr \<Rightarrow> NetPtr list" where
  "seeds_of_cell ctx c =
     map (\<lambda>kp. the (port_net (snd kp)))
       (filter (\<lambda>kp. seed_port ctx c (port_name (snd kp))) (output_ports (cell_at ctx c)))"

text \<open>
  The \<^verbatim>\<open>budget_share\<close> of lines 262 and 280 for the sink \<open>(c, p)\<close> of net \<open>n\<close>: nothing for a
  pinned sink, and otherwise the path budget divided by \<^verbatim>\<open>net_length_plus_one\<close>.
\<close>

definition budget_share ::
  "Context \<Rightarrow> net_data_map \<Rightarrow> NetPtr \<Rightarrow> CellPtr \<Rightarrow> IdString \<Rightarrow> delay_t \<Rightarrow> delay_t" where
  "budget_share ctx nd n c p path_budget =
     (if getBudgetOverride ctx n c p \<noteq> None then 0
      else path_budget sdiv (int (max_path_length (net_data_get nd n)) + 1))"

text \<open>
  What a terminus leaves of its path budget after its share: the value of
  \<^verbatim>\<open>path_budget - budget_share\<close> at line 264.
\<close>

definition terminus_remaining ::
  "Context \<Rightarrow> net_data_map \<Rightarrow> NetPtr \<Rightarrow> CellPtr \<Rightarrow> IdString \<Rightarrow> delay_t" where
  "terminus_remaining ctx nd n c p =
     (let path_budget = terminus_path_budget ctx nd (n, c, p)
      in path_budget - budget_share ctx nd n c p path_budget)"

text \<open>
  Sink number \<open>m\<close> of net \<open>a\<close> is unclocked and has a combinational path to an output of its
  cell that drives net \<open>n\<close>.
\<close>

definition feeds :: "Context \<Rightarrow> NetPtr \<Rightarrow> nat \<Rightarrow> NetPtr \<Rightarrow> bool" where
  "feeds ctx a m n \<longleftrightarrow>
     m < length (users (net_at ctx a))
     \<and> (let u = users (net_at ctx a) ! m
        in getPortClock ctx (cell u) (port u) = 0
           \<and> comb_targets ctx (cell u) (port u) (cell_ports (cell_at ctx (cell u))) n \<noteq> {})"

text \<open>
  The nets that the linearizer reaches: the nets of the seeds, and every net driven by an
  unclocked output that has counted inputs, all of them unclocked sinks of nets that are
  reached.
\<close>

inductive reachable :: "Context \<Rightarrow> NetPtr \<Rightarrow> bool" for ctx where
  seed: "seed_net ctx n \<Longrightarrow> reachable ctx n"
| fed: "c \<in> set (cells ctx) \<Longrightarrow> (k, p) \<in> set (output_ports (cell_at ctx c)) \<Longrightarrow>
        port_net p = Some n \<Longrightarrow> getPortClock ctx c k = 0 \<Longrightarrow> counted ctx c k \<noteq> {} \<Longrightarrow>
        (\<forall>i\<in>counted ctx c k. getPortClock ctx c i = 0
            \<and> (\<exists>a. reachable ctx a \<and> a \<in> set (nets ctx) \<and> (c, i) \<in> set (sinks ctx a))) \<Longrightarrow>
        reachable ctx n"

section \<open>Properties of the passes\<close>

lemma retarget_2900: "retarget 2900 = 2900"
  by code_simp

lemma retarget_3000: "retarget 3000 = 2999"
  by code_simp

lemma foldM_append:
  "foldM f (xs @ ys) s = (case foldM f xs s of Inl e \<Rightarrow> Inl e | Inr s' \<Rightarrow> foldM f ys s')"
  by (induction xs arbitrary: s) (auto split: sum.splits)

lemma foldM_cong_set:
  "(\<And>x s. x \<in> set xs \<Longrightarrow> f x s = g x s) \<Longrightarrow> foldM f xs s = foldM g xs s"
  by (induction xs arbitrary: s) (auto split: sum.splits)


lemma nd_le_refl: "nd_le nd nd"
  by (auto simp: nd_le_def split: option.splits)

lemma nd_le_trans: "nd_le a b \<Longrightarrow> nd_le b c \<Longrightarrow> nd_le a c"
  unfolding nd_le_def
  apply (intro allI)
  subgoal for n
    apply (erule_tac x = n in allE)+
    apply (auto split: option.splits)
    done
  done

lemma nd_le_tighten: "nd_le nd (tighten net v nd)"
  by (auto simp: nd_le_def tighten_def split: option.splits)

lemma backward_port_nd_le:
  "backward_port ctx net len1 dl ov kp (usr, nd) = Inr (usr', nd') \<Longrightarrow> nd_le nd nd'"
  by (auto simp: backward_port_def Let_def nd_le_refl nd_le_tighten
           split: prod.splits if_splits option.splits)

lemma backward_ports_nd_le:
  "foldM (backward_port ctx net len1 dl ov) ps (usr, nd) = Inr (usr', nd') \<Longrightarrow> nd_le nd nd'"
proof (induction ps arbitrary: usr nd)
  case Nil
  then show ?case by (simp add: nd_le_refl)
next
  case (Cons p ps)
  then show ?case
    by (auto split: sum.splits dest!: backward_port_nd_le intro: nd_le_trans)
qed

lemma backward_user_nd_le:
  "backward_user ctx net len1 usr (nd, tm) = Inr (usr', nd', tm') \<Longrightarrow> nd_le nd nd'"
  by (auto simp: backward_user_def Let_def nd_le_tighten
           split: if_splits option.splits sum.splits dest: backward_ports_nd_le)

lemma backward_users_nd_le:
  "backward_users ctx net len1 us (nd, tm) = Inr (us', nd', tm') \<Longrightarrow> nd_le nd nd'"
proof (induction us arbitrary: nd tm us')
  case Nil
  then show ?case by (simp add: nd_le_refl)
next
  case (Cons u us)
  from Cons.prems obtain u' nd1 tm1 us1 where
    1: "backward_user ctx net len1 u (nd, tm) = Inr (u', nd1, tm1)" and
    2: "backward_users ctx net len1 us (nd1, tm1) = Inr (us1, nd', tm')"
    by (auto split: sum.splits)
  show ?case using backward_user_nd_le [OF 1] Cons.IH [OF 2] by (rule nd_le_trans)
qed

lemma same_netlist_refl: "same_netlist c c"
  by (simp add: same_netlist_def)

lemma same_netlist_trans: "same_netlist a b \<Longrightarrow> same_netlist b c \<Longrightarrow> same_netlist a c"
  unfolding same_netlist_def
  by (metis (no_types, lifting) Context.surjective Context.update_convs(4) Context.select_convs)

lemma nd_le_max_arrival: "nd_le nd nd' \<Longrightarrow> max_arrival (net_data_get nd' n) = max_arrival (net_data_get nd n)"
  unfolding nd_le_def net_data_get_def
  by (erule allE [of _ n]) (auto split: option.splits)

lemma nd_le_max_path_length:
  "nd_le nd nd' \<Longrightarrow> max_path_length (net_data_get nd' n) = max_path_length (net_data_get nd n)"
  unfolding nd_le_def net_data_get_def
  by (erule allE [of _ n]) (auto split: option.splits)

lemma backward_port_key:
  "backward_port ctx net len1 dl ov kp (usr, nd) = Inr (usr', nd') \<Longrightarrow>
   cell usr' = cell usr \<and> port usr' = port usr \<and> budget usr' \<le> budget usr"
  by (auto simp: backward_port_def Let_def split: prod.splits if_splits option.splits)

lemma backward_ports_key:
  "foldM (backward_port ctx net len1 dl ov) ps (usr, nd) = Inr (usr', nd') \<Longrightarrow>
   cell usr' = cell usr \<and> port usr' = port usr \<and> budget usr' \<le> budget usr"
proof (induction ps arbitrary: usr nd)
  case Nil
  then show ?case by simp
next
  case (Cons p ps)
  from Cons.prems obtain u1 nd1 where
    1: "backward_port ctx net len1 dl ov p (usr, nd) = Inr (u1, nd1)" and
    2: "foldM (backward_port ctx net len1 dl ov) ps (u1, nd1) = Inr (usr', nd')"
    by (auto split: sum.splits)
  show ?case using backward_port_key [OF 1] Cons.IH [OF 2] by auto
qed

lemma backward_user_key:
  "backward_user ctx net len1 usr (nd, tm) = Inr (usr', nd', tm') \<Longrightarrow>
   cell usr' = cell usr \<and> port usr' = port usr \<and> budget usr' \<le> budget usr"
  by (auto simp: backward_user_def Let_def
           split: if_splits option.splits sum.splits dest: backward_ports_key)

lemma backward_users_keys:
  "backward_users ctx net len1 us st = Inr (us', st') \<Longrightarrow>
   map (\<lambda>u. (cell u, port u)) us' = map (\<lambda>u. (cell u, port u)) us"
proof (induction us arbitrary: st us')
  case Nil
  then show ?case by simp
next
  case (Cons u us)
  obtain nd tm where st: "st = (nd, tm)" by (cases st)
  from Cons.prems st obtain u' nd1 tm1 us1 where
    1: "backward_user ctx net len1 u (nd, tm) = Inr (u', nd1, tm1)" and
    2: "backward_users ctx net len1 us (nd1, tm1) = Inr (us1, st')" and
    3: "us' = u' # us1"
    by (auto split: sum.splits)
  show ?case using backward_user_key [OF 1] Cons.IH [OF 2] 3 by simp
qed

lemma glb_step_empty: "glb_step a {} a"
  by (simp add: glb_step_def)

lemma glb_step_trans: "glb_step a S b \<Longrightarrow> glb_step b T c \<Longrightarrow> glb_step a (S \<union> T) c"
  by (auto simp: glb_step_def)


lemma backward_user_slack:
  assumes "backward_user ctx net len1 usr (nd, tm) = Inr (usr', nd', tm')"
  shows "glb_step (min_slack tm)
           (if getPortClock ctx (cell usr) (port usr) \<noteq> 0
            then {terminus_path_budget ctx nd (net, cell usr, port usr)} else {})
           (min_slack tm')"
  using assms
  by (auto simp: backward_user_def Let_def terminus_path_budget_def net_data_get_def
                 glb_step_def min_def
           split: if_splits option.splits sum.splits)

lemma backward_users_slack:
  "backward_users ctx net len1 us (nd, tm) = Inr (us', nd', tm') \<Longrightarrow>
   glb_step (min_slack tm)
     (terminus_path_budget ctx nd `
        {(n, c, p). n = net \<and> (c, p) \<in> set (map (\<lambda>u. (cell u, port u)) us) \<and> getPortClock ctx c p \<noteq> 0})
     (min_slack tm')"
proof (induction us arbitrary: nd tm us')
  case Nil
  then show ?case by (simp add: glb_step_empty)
next
  case (Cons u us)
  from Cons.prems obtain u' nd1 tm1 us1 where
    1: "backward_user ctx net len1 u (nd, tm) = Inr (u', nd1, tm1)" and
    2: "backward_users ctx net len1 us (nd1, tm1) = Inr (us1, nd', tm')"
    by (auto split: sum.splits)
  have le: "nd_le nd nd1" by (rule backward_user_nd_le [OF 1])
  have eq: "terminus_path_budget ctx nd1 = terminus_path_budget ctx nd"
    by (rule ext) (simp add: terminus_path_budget_def nd_le_max_arrival [OF le] split: prod.splits)
  let ?A = "(if getPortClock ctx (cell u) (port u) \<noteq> 0
            then {terminus_path_budget ctx nd (net, cell u, port u)} else {})"
  let ?B = "terminus_path_budget ctx nd `
        {(n, c, p). n = net \<and> (c, p) \<in> set (map (\<lambda>u. (cell u, port u)) us) \<and> getPortClock ctx c p \<noteq> 0}"
  have "glb_step (min_slack tm) (?A \<union> ?B) (min_slack tm')"
    using backward_user_slack [OF 1] Cons.IH [OF 2] unfolding eq by (rule glb_step_trans)
  moreover have "?A \<union> ?B = terminus_path_budget ctx nd `
        {(n, c, p). n = net \<and> (c, p) \<in> set (map (\<lambda>u. (cell u, port u)) (u # us)) \<and> getPortClock ctx c p \<noteq> 0}"
    by auto
  ultimately show ?case by simp
qed

lemma same_netlistD:
  assumes "same_netlist c c'"
  obtains g where "c' = c\<lparr>net_at := g\<rparr>" and "\<And>n. sinks c' n = sinks c n"
  using assms unfolding same_netlist_def by blast

lemma backward_port_net_at [simp]:
  "backward_port (c\<lparr>net_at := g\<rparr>) = backward_port c"
  by (intro ext) (simp add: backward_port_def Let_def split: prod.splits option.splits)

lemma backward_user_net_at [simp]:
  "backward_user (c\<lparr>net_at := g\<rparr>) = backward_user c"
  by (intro ext) (simp add: backward_user_def Let_def split: prod.splits option.splits sum.splits)

lemma backward_users_net_at [simp]:
  "backward_users (c\<lparr>net_at := g\<rparr>) net len1 us st = backward_users c net len1 us st"
  by (induction us arbitrary: st) (auto split: sum.splits)

lemma realized_delay_net_at [simp]:
  "realized_delay (c\<lparr>net_at := g\<rparr>) = realized_delay c"
  by (intro ext) (simp add: realized_delay_def split: option.splits)

lemma terminus_path_budget_net_at [simp]:
  "terminus_path_budget (c\<lparr>net_at := g\<rparr>) = terminus_path_budget c"
  by (intro ext) (simp add: terminus_path_budget_def split: prod.splits)

lemma termini_same_netlist:
  "same_netlist c c' \<Longrightarrow> termini c' ns = termini c ns"
  by (erule same_netlistD) (simp add: termini_def)

lemma set_termini_Cons:
  "set (termini ctx (n # ns)) =
     {(n', c, p). n' = n \<and> (c, p) \<in> set (sinks ctx n) \<and> getPortClock ctx c p \<noteq> 0}
     \<union> set (termini ctx ns)"
  by (auto simp: termini_def)

lemma backward_net_props:
  assumes "backward_net n (c, nd, tm) = Inr (c', nd', tm')"
  shows "same_netlist c c'" and "nd_le nd nd'"
    and "glb_step (min_slack tm)
           (terminus_path_budget c nd `
              {(n', cc, p). n' = n \<and> (cc, p) \<in> set (sinks c n) \<and> getPortClock c cc p \<noteq> 0})
           (min_slack tm')"
    and "\<And>m. m \<noteq> n \<Longrightarrow> net_at c' m = net_at c m"
proof -
  from assms obtain d us' where
    d: "nd n = Some d" and
    us: "backward_users c n (int (max_path_length d + 1)) (users (net_at c n)) (nd, tm)
           = Inr (us', nd', tm')" and
    c': "c' = c\<lparr>net_at := (net_at c)(n := (net_at c n)\<lparr>users := us'\<rparr>)\<rparr>"
    by (auto simp: backward_net_def split: option.splits sum.splits)
  have keys: "map (\<lambda>u. (cell u, port u)) us' = map (\<lambda>u. (cell u, port u)) (users (net_at c n))"
    by (rule backward_users_keys [OF us])
  show "same_netlist c c'"
    using keys by (auto simp: same_netlist_def c' sinks_def)
  show "nd_le nd nd'" by (rule backward_users_nd_le [OF us])
  show "glb_step (min_slack tm)
           (terminus_path_budget c nd `
              {(n', cc, p). n' = n \<and> (cc, p) \<in> set (sinks c n) \<and> getPortClock c cc p \<noteq> 0})
           (min_slack tm')"
    using backward_users_slack [OF us] by (simp add: sinks_def)
  show "\<And>m. m \<noteq> n \<Longrightarrow> net_at c' m = net_at c m"
    by (simp add: c')
qed

lemma backward_pass_props:
  assumes "foldM backward_net ns (c, nd, tm) = Inr (c', nd', tm')"
  shows "same_netlist c c' \<and> nd_le nd nd'
         \<and> glb_step (min_slack tm) (terminus_path_budget c nd ` set (termini c ns)) (min_slack tm')
         \<and> (\<forall>m. m \<notin> set ns \<longrightarrow> net_at c' m = net_at c m)"
  using assms
proof (induction ns arbitrary: c nd tm)
  case Nil
  then show ?case
    by (simp add: same_netlist_refl nd_le_refl glb_step_empty termini_def)
next
  case (Cons n ns)
  from Cons.prems obtain c1 nd1 tm1 where
    1: "backward_net n (c, nd, tm) = Inr (c1, nd1, tm1)" and
    2: "foldM backward_net ns (c1, nd1, tm1) = Inr (c', nd', tm')"
    by (auto split: sum.splits)
  note p1 = backward_net_props [OF 1]
  note p2 = Cons.IH [OF 2]
  have sn: "same_netlist c c'" using p1(1) p2 by (blast intro: same_netlist_trans)
  have le: "nd_le nd nd'" using p1(2) p2 by (blast intro: nd_le_trans)
  have ts: "terminus_path_budget c1 nd1 = terminus_path_budget c nd"
  proof -
    from p1(1) obtain g where "c1 = c\<lparr>net_at := g\<rparr>" by (rule same_netlistD)
    then show ?thesis
      by (intro ext) (simp add: terminus_path_budget_def nd_le_max_arrival [OF p1(2)]
                           split: prod.splits)
  qed
  have "glb_step (min_slack tm)
          (terminus_path_budget c nd `
              {(n', cc, p). n' = n \<and> (cc, p) \<in> set (sinks c n) \<and> getPortClock c cc p \<noteq> 0}
           \<union> terminus_path_budget c nd ` set (termini c ns))
          (min_slack tm')"
    using p1(3) p2 unfolding ts termini_same_netlist [OF p1(1)]
    by (blast intro: glb_step_trans)
  then have gl: "glb_step (min_slack tm) (terminus_path_budget c nd ` set (termini c (n # ns))) (min_slack tm')"
    by (simp add: set_termini_Cons image_Un)
  have fr: "\<forall>m. m \<notin> set (n # ns) \<longrightarrow> net_at c' m = net_at c m"
    using p1(4) p2 by auto
  show ?case using sn le gl fr by blast
qed











lemma terminus_path_budget_nd_le: "nd_le nd nd' \<Longrightarrow> terminus_path_budget ctx nd' = terminus_path_budget ctx nd"
  by (intro ext) (simp add: terminus_path_budget_def nd_le_max_arrival split: prod.splits)

lemma backward_users_nth:
  assumes "backward_users ctx net len1 us st = Inr (us', st')" and "i < length us"
  shows "\<exists>nd1 tm1 nd2 tm2.
           backward_user ctx net len1 (us ! i) (nd1, tm1) = Inr (us' ! i, nd2, tm2)"
  using assms
proof (induction us arbitrary: st us' i)
  case Nil
  then show ?case by simp
next
  case (Cons u us)
  obtain nd tm where st: "st = (nd, tm)" by (cases st)
  from Cons.prems(1) obtain u' nd1 tm1 us1 where
    1: "backward_user ctx net len1 u (nd, tm) = Inr (u', nd1, tm1)" and
    2: "backward_users ctx net len1 us (nd1, tm1) = Inr (us1, st')" and
    3: "us' = u' # us1"
    unfolding st by (auto split: sum.splits)
  show ?case
  proof (cases i)
    case 0
    then show ?thesis using 1 3 by fastforce
  next
    case (Suc j)
    then have "j < length us" using Cons.prems(2) by simp
    from Cons.IH [OF 2 this] show ?thesis using Suc 3 by simp
  qed
qed

lemma foldM_cong_key:
  assumes "map k xs = map k ys" and "\<And>x y. k x = k y \<Longrightarrow> f x = g y"
  shows "foldM f xs s = foldM g ys s"
  using assms(1)
proof (induction xs arbitrary: ys s)
  case Nil
  then show ?case by simp
next
  case (Cons x xs)
  then obtain y ys' where ys: "ys = y # ys'" and k: "k x = k y" and r: "map k xs = map k ys'"
    by (cases ys) auto
  show ?case using assms(2) [OF k] Cons.IH [OF r] by (simp add: ys split: sum.splits)
qed

lemma fold_cong_key:
  assumes "map k xs = map k ys" and "\<And>x y. k x = k y \<Longrightarrow> f x = g y"
  shows "fold f xs s = fold g ys s"
  using assms(1)
proof (induction xs arbitrary: ys s)
  case Nil
  then show ?case by simp
next
  case (Cons x xs)
  then obtain y ys' where ys: "ys = y # ys'" and k: "k x = k y" and r: "map k xs = map k ys'"
    by (cases ys) auto
  show ?case using assms(2) [OF k] Cons.IH [OF r] by (simp add: ys)
qed

lemma init_all_net_at [simp]: "init_all (c\<lparr>net_at := g\<rparr>) = init_all c"
proof -
  have "init_output (c\<lparr>net_at := g\<rparr>) = init_output c"
    by (intro ext) (simp add: init_output_def Let_def split: prod.splits option.splits)
  then have "init_cell (c\<lparr>net_at := g\<rparr>) = init_cell c"
    by (intro ext) (simp add: init_cell_def)
  then show ?thesis by (simp add: init_all_def)
qed

lemma kahn_user_key:
  assumes "(cell u, port u) = (cell u', port u')"
  shows "kahn_user (c\<lparr>net_at := g\<rparr>) u = kahn_user c u'"
proof -
  have "kahn_port (c\<lparr>net_at := g\<rparr>) u = kahn_port c u'"
    using assms
    by (intro ext) (simp add: kahn_port_def Let_def split: prod.splits option.splits)
  then show ?thesis using assms by (intro ext) (simp add: kahn_user_def)
qed

lemma kahn_net_same_netlist:
  assumes "same_netlist c c'"
  shows "kahn_net c' n st = kahn_net c n st"
proof -
  from assms have c': "c' = c\<lparr>net_at := net_at c'\<rparr>" and s: "\<And>n. sinks c' n = sinks c n"
    unfolding same_netlist_def by auto
  have "map (\<lambda>u. (cell u, port u)) (users (net_at c' n)) = map (\<lambda>u. (cell u, port u)) (users (net_at c n))"
    using s [of n] by (simp add: sinks_def)
  then show ?thesis
    unfolding kahn_net_def
    by (subst c', rule foldM_cong_key) (rule kahn_user_key)
qed

lemma kahn_loop_same_netlist:
  "same_netlist c c' \<Longrightarrow> kahn_loop c' st = kahn_loop c st"
proof (induction c st arbitrary: c' rule: kahn_loop.induct)
  case (1 ctx order fanin)
  then show ?case by simp
next
  case (2 ctx order n queue fanin)
  show ?case
  proof (cases "kahn_net ctx n (order, queue, fanin)")
    case (Inl e)
    then show ?thesis by (simp add: kahn_net_same_netlist [OF "2.prems"])
  next
    case (Inr st')
    then show ?thesis
      using "2.IH" [OF Inr "2.prems"] by (simp add: kahn_net_same_netlist [OF "2.prems"])
  qed
qed

lemma linearize_same_netlist:
  assumes "same_netlist c c'"
  shows "linearize c' = linearize c"
proof -
  from assms obtain g where c': "c' = c\<lparr>net_at := g\<rparr>" by (rule same_netlistD)
  have "init_all c' = init_all c" by (simp add: c')
  then show ?thesis
    by (simp add: linearize_def kahn_loop_same_netlist [OF assms])
qed

lemma forward_user_key:
  assumes "(cell u, port u) = (cell u', port u')"
  shows "forward_user (c\<lparr>net_at := g\<rparr>) n a l u = forward_user c n a l u'"
proof -
  have "forward_port (c\<lparr>net_at := g\<rparr>) u = forward_port c u'"
    using assms
    by (intro ext) (simp add: forward_port_def Let_def split: prod.splits option.splits)
  then show ?thesis using assms by (intro ext) (simp add: forward_user_def Let_def)
qed

lemma forward_net_same_netlist:
  assumes "same_netlist c c'"
  shows "forward_net c' n nd = forward_net c n nd"
proof -
  from assms have c': "c' = c\<lparr>net_at := net_at c'\<rparr>" and s: "\<And>n. sinks c' n = sinks c n"
    unfolding same_netlist_def by auto
  have m: "map (\<lambda>u. (cell u, port u)) (users (net_at c' n)) = map (\<lambda>u. (cell u, port u)) (users (net_at c n))"
    using s [of n] by (simp add: sinks_def)
  have "fold (forward_user c' n a l) (users (net_at c' n)) s0
        = fold (forward_user c n a l) (users (net_at c n)) s0" for a l s0
    using m by (subst c', intro fold_cong_key) (auto intro: forward_user_key)
  moreover have "clk_period c' = clk_period c" by (subst c') simp
  ultimately show ?thesis
    by (simp add: forward_net_def split: option.splits)
qed

lemma forward_pass_same_netlist:
  assumes "same_netlist c c'"
  shows "forward_pass c' order nd = forward_pass c order nd"
  unfolding forward_pass_def
  by (rule foldM_cong_set) (rule forward_net_same_netlist [OF assms])

lemma reset_fold:
  "same_netlist c (fold reset_net ns c) \<and>
   (\<forall>n. users (net_at (fold reset_net ns c) n)
          = (if n \<in> set ns then map (\<lambda>u. u\<lparr>budget := delay_t_max c\<rparr>) (users (net_at c n))
             else users (net_at c n)))"
proof (induction ns arbitrary: c)
  case Nil
  then show ?case by (simp add: same_netlist_refl)
next
  case (Cons n ns)
  let ?c1 = "reset_net n c"
  have s1: "same_netlist c ?c1"
    by (simp add: same_netlist_def reset_net_def sinks_def comp_def)
  have m1: "delay_t_max ?c1 = delay_t_max c" by (simp add: reset_net_def)
  have u1: "users (net_at ?c1 m) = (if m = n then map (\<lambda>u. u\<lparr>budget := delay_t_max c\<rparr>) (users (net_at c n))
             else users (net_at c m))" for m
    by (simp add: reset_net_def)
  from Cons.IH [of ?c1] have
    s2: "same_netlist ?c1 (fold reset_net ns ?c1)" and
    u2: "\<And>m. users (net_at (fold reset_net ns ?c1) m)
          = (if m \<in> set ns then map (\<lambda>u. u\<lparr>budget := delay_t_max ?c1\<rparr>) (users (net_at ?c1 m))
             else users (net_at ?c1 m))"
    by auto
  show ?case
    using same_netlist_trans [OF s1 s2]
    by (auto simp: u2 u1 m1 comp_def)
qed

lemma reset_budgets_same_netlist: "same_netlist ctx (reset_budgets ctx)"
  using reset_fold [of ctx "nets ctx"] by (simp add: reset_budgets_def)

lemma reset_budgets_users:
  "users (net_at (reset_budgets ctx) n)
     = (if n \<in> set (nets ctx) then map (\<lambda>u. u\<lparr>budget := delay_t_max ctx\<rparr>) (users (net_at ctx n))
        else users (net_at ctx n))"
  using reset_fold [of ctx "nets ctx"] by (simp add: reset_budgets_def)

lemma NetInfo_eqI: "users (x :: NetInfo) = users y \<Longrightarrow> x = y"
  by (cases x, cases y) simp

lemma reset_map_key:
  "map (\<lambda>u. (cell u, port u)) us = map (\<lambda>u. (cell u, port u)) us' \<Longrightarrow>
   map (\<lambda>u. u\<lparr>budget := M\<rparr>) us = map (\<lambda>u. u\<lparr>budget := M\<rparr>) (us' :: PortRef list)"
proof (induction us arbitrary: us')
  case Nil
  then show ?case by simp
next
  case (Cons u us)
  then obtain v vs where us': "us' = v # vs" by (cases us') auto
  with Cons.prems have k: "cell u = cell v" "port u = port v"
    and r: "map (\<lambda>u. (cell u, port u)) us = map (\<lambda>u. (cell u, port u)) vs"
    by auto
  have "u\<lparr>budget := M\<rparr> = v\<lparr>budget := M\<rparr>"
    using k by (cases u, cases v) simp
  then show ?case using Cons.IH [OF r] by (simp add: us')
qed

lemma walk_paths_frame:
  assumes "walk_paths tm c = Inr (ms, tm', c', nd)" and "linearize c = Inr (order, fanin, nd0)"
  shows "same_netlist c c'" and "\<And>n. n \<notin> set order \<Longrightarrow> net_at c' n = net_at c n"
proof -
  from assms obtain nd1 where
    bw: "backward_pass order (c, nd1, tm) = Inr (c', nd, tm')"
    by (auto simp: walk_paths_def split: sum.splits)
  note props = backward_pass_props [OF bw [unfolded backward_pass_def]]
  show "same_netlist c c'" using props by blast
  show "\<And>n. n \<notin> set order \<Longrightarrow> net_at c' n = net_at c n" using props by simp
qed

lemma wf_port_unique:
  assumes "wf_netlist ctx" "c \<in> set (cells ctx)"
    "(k, p) \<in> set (cell_ports (cell_at ctx c))" "(k, p') \<in> set (cell_ports (cell_at ctx c))"
  shows "p = p'"
proof -
  from assms(1,2) have "distinct (map fst (cell_ports (cell_at ctx c)))"
    by (simp add: wf_netlist_def)
  then show ?thesis using assms(3,4) by (meson eq_key_imp_eq_value)
qed

lemma wf_port_net:
  assumes "wf_netlist ctx" "c \<in> set (cells ctx)"
    "(k, p) \<in> set (cell_ports (cell_at ctx c))" "port_net p = Some n"
  shows "n \<in> set (nets ctx)" and "port_name p = k"
  using assms unfolding wf_netlist_def by blast+

lemma wf_sink:
  assumes "wf_netlist ctx" "n \<in> set (nets ctx)" "(c, i) \<in> set (sinks ctx n)"
  shows "c \<in> set (cells ctx)"
    and "\<exists>p. (i, p) \<in> set (cell_ports (cell_at ctx c)) \<and> port_net p = Some n \<and> port_type p \<noteq> PORT_OUT"
  using assms unfolding wf_netlist_def by blast+

lemma wf_sink_input:
  assumes "wf_netlist ctx" "n \<in> set (nets ctx)" "(c, i) \<in> set (sinks ctx n)"
  shows "i \<in> set (input_ports (cell_at ctx c))"
proof -
  from wf_sink(2) [OF assms] obtain p where
    "(i, p) \<in> set (cell_ports (cell_at ctx c))" "port_net p = Some n" "port_type p \<noteq> PORT_OUT"
    by blast
  then show ?thesis by (force simp: input_ports_def)
qed

lemma wf_sink_net_unique:
  assumes wf: "wf_netlist ctx" and "n \<in> set (nets ctx)" "n' \<in> set (nets ctx)"
    "(c, i) \<in> set (sinks ctx n)" "(c, i) \<in> set (sinks ctx n')"
  shows "n = n'"
proof -
  have c: "c \<in> set (cells ctx)" using wf_sink(1) [OF wf assms(2,4)] .
  from wf_sink(2) [OF wf assms(2,4)] obtain p where
    p: "(i, p) \<in> set (cell_ports (cell_at ctx c))" "port_net p = Some n" by blast
  from wf_sink(2) [OF wf assms(3,5)] obtain p' where
    p': "(i, p') \<in> set (cell_ports (cell_at ctx c))" "port_net p' = Some n'" by blast
  have "p = p'" using wf_port_unique [OF wf c p(1) p'(1)] .
  then show ?thesis using p(2) p'(2) by simp
qed

lemma wf_single_driver:
  assumes "wf_netlist ctx" "c \<in> set (cells ctx)" "c' \<in> set (cells ctx)"
    "(k, p) \<in> set (output_ports (cell_at ctx c))" "(k', p') \<in> set (output_ports (cell_at ctx c'))"
    "port_net p = port_net p'"
  shows "c = c' \<and> k = k'"
  using assms unfolding wf_netlist_def by blast

lemma wf_seed_no_path:
  assumes "wf_netlist ctx" "c \<in> set (cells ctx)" "(k, p) \<in> set (output_ports (cell_at ctx c))"
    "seed_port ctx c k" "i \<in> set (input_ports (cell_at ctx c))" "getPortClock ctx c i = 0"
  shows "getCellDelay ctx c i k = None"
  using assms unfolding wf_netlist_def by blast

lemma finite_counted [simp]: "finite (counted ctx c k)"
  by (simp add: counted_def)

lemma finite_pending [simp]: "finite (pending ctx F c k)"
  by (simp add: pending_def)

lemma pending_insert:
  "pending ctx (insert (c, i, k) F) c' k'
     = (if c' = c \<and> k' = k then pending ctx F c k - {i} else pending ctx F c' k')"
  by (auto simp: pending_def)

lemma pending_mono: "F \<subseteq> F' \<Longrightarrow> pending ctx F' c k \<subseteq> pending ctx F c k"
  by (auto simp: pending_def)

lemma ready_net_mono: "F \<subseteq> F' \<Longrightarrow> ready_net ctx F n \<Longrightarrow> ready_net ctx F' n"
  unfolding ready_net_def using pending_mono [of F F'] by fast

lemma events_of_ports_single:
  "events_of_ports ctx c i [kp] = (if fires ctx c i kp then {(c, i, fst kp)} else {})"
  by (auto simp: events_of_ports_def)

lemma events_of_ports_snoc:
  "events_of_ports ctx c i (ps @ [kp]) = events_of_ports ctx c i ps \<union> events_of_ports ctx c i [kp]"
  by (auto simp: events_of_ports_def)

lemma kahn_port_no_event:
  "\<not> fires ctx (cell usr) (port usr) kp \<Longrightarrow> kahn_port ctx usr kp st = Inr st"
  by (cases kp; cases st) (auto simp: kahn_port_def fires_def split: option.splits)

lemma comb_edge_driver:
  assumes wf: "wf_netlist ctx" and a: "a \<in> set (nets ctx)" and e: "comb_edge ctx a b"
  obtains c i k p where "(c, i) \<in> set (sinks ctx a)" "getPortClock ctx c i = 0"
    "c \<in> set (cells ctx)" "(k, p) \<in> set (output_ports (cell_at ctx c))" "port_net p = Some b"
    "getCellDelay ctx c i k \<noteq> None" "i \<in> set (input_ports (cell_at ctx c))"
proof -
  from e obtain c i k p d where
    s: "(c, i) \<in> set (sinks ctx a)" and u: "getPortClock ctx c i = 0" and
    kp: "(k, p) \<in> set (cell_ports (cell_at ctx c))" "port_type p = PORT_OUT" "port_net p = Some b"
        "getCellDelay ctx c i k = Some d"
    by (auto simp: comb_edge_def comb_targets_def)
  have c: "c \<in> set (cells ctx)" by (rule wf_sink(1) [OF wf a s])
  have o: "(k, p) \<in> set (output_ports (cell_at ctx c))"
    using kp by (simp add: output_ports_def)
  have i: "i \<in> set (input_ports (cell_at ctx c))" by (rule wf_sink_input [OF wf a s])
  show thesis using that [OF s u c o kp(3) _ i] kp(4) by simp
qed

lemma seed_net_no_edge:
  assumes wf: "wf_netlist ctx" and a: "a \<in> set (nets ctx)" and e: "comb_edge ctx a b"
  shows "\<not> seed_net ctx b"
proof
  assume "seed_net ctx b"
  then obtain c' k' p' where s: "c' \<in> set (cells ctx)" "(k', p') \<in> set (output_ports (cell_at ctx c'))"
    "seed_port ctx c' k'" "port_net p' = Some b"
    by (auto simp: seed_net_def)
  from comb_edge_driver [OF wf a e] obtain c i k p where d:
    "getPortClock ctx c i = 0" "c \<in> set (cells ctx)" "(k, p) \<in> set (output_ports (cell_at ctx c))"
    "port_net p = Some b" "getCellDelay ctx c i k \<noteq> None" "i \<in> set (input_ports (cell_at ctx c))"
    by metis
  have "c = c' \<and> k = k'"
    using wf_single_driver [OF wf d(2) s(1) d(3) s(2)] d(4) s(4) by simp
  then show False
    using wf_seed_no_path [OF wf d(2,3) _ d(6) d(1)] s(3) d(5) by simp
qed

lemma events_of_net_sink:
  assumes "(c, i, k) \<in> events_of_net ctx n"
  shows "(c, i) \<in> set (sinks ctx n)" and "getPortClock ctx c i = 0"
  using assms
  by (auto simp: events_of_net_def events_of_sink_def events_of_ports_def split: if_splits)

lemma events_of_net_intro:
  assumes "(c, i) \<in> set (sinks ctx n)" "getPortClock ctx c i = 0"
    "(k, p) \<in> set (cell_ports (cell_at ctx c))" "fires ctx c i (k, p)"
  shows "(c, i, k) \<in> events_of_net ctx n"
  using assms
  by (force simp: events_of_net_def events_of_sink_def events_of_ports_def)

lemma fanin_spec_insert:
  assumes "tracked ctx c k" "i \<in> pending ctx F c k"
  shows "fanin_spec ctx (insert (c, i, k) F)
         = (fanin_spec ctx F)((c, k) :=
              (if card (pending ctx F c k) = 1 then None
               else Some (card (pending ctx F c k) - 1)))"
proof (rule ext)
  fix q :: PortPtr
  obtain c' k' where q: "q = (c', k')" by (cases q)
  show "fanin_spec ctx (insert (c, i, k) F) q
         = ((fanin_spec ctx F)((c, k) :=
              (if card (pending ctx F c k) = 1 then None
               else Some (card (pending ctx F c k) - 1)))) q"
  proof (cases "c' = c \<and> k' = k")
    case False
    then show ?thesis by (auto simp: q fanin_spec_def pending_insert)
  next
    case True
    have fin: "finite (pending ctx F c k)" by simp
    have card: "card (pending ctx F c k - {i}) = card (pending ctx F c k) - 1"
      using assms(2) by simp
    have pos: "card (pending ctx F c k) > 0"
      using assms(2) fin by (auto simp: card_gt_0_iff)
    have "pending ctx F c k - {i} = {} \<longleftrightarrow> card (pending ctx F c k) = 1"
      using card pos fin by (metis One_nat_def Suc_pred card_0_eq diff_Suc_1 finite_Diff)
    then show ?thesis
      using True assms(1) card by (simp add: q fanin_spec_def pending_insert)
  qed
qed

lemma ready_net_insert:
  assumes wf: "wf_netlist ctx" and c: "c \<in> set (cells ctx)"
    and o: "(k, p) \<in> set (output_ports (cell_at ctx c))" and pn: "port_net p = Some n"
    and r: "ready_net ctx (insert (c, i, k) F) m"
  shows "ready_net ctx F m \<or> (m = n \<and> pending ctx F c k \<subseteq> {i})"
proof -
  from r obtain c' k' p' where s: "c' \<in> set (cells ctx)"
    "(k', p') \<in> set (output_ports (cell_at ctx c'))" "port_net p' = Some m"
    "getPortClock ctx c' k' = 0" "counted ctx c' k' \<noteq> {}"
    "pending ctx (insert (c, i, k) F) c' k' = {}"
    by (auto simp: ready_net_def)
  show ?thesis
  proof (cases "c' = c \<and> k' = k")
    case True
    have "(k, p') \<in> set (cell_ports (cell_at ctx c))" "(k, p) \<in> set (cell_ports (cell_at ctx c))"
      using s(2) o True by (auto simp: output_ports_def)
    then have "p' = p" by (rule wf_port_unique [OF wf c])
    then have "m = n" using s(3) pn by simp
    moreover have "pending ctx F c k \<subseteq> {i}"
      using s(6) True by (auto simp: pending_insert)
    ultimately show ?thesis by simp
  next
    case False
    then have "pending ctx F c' k' = {}"
      using s(6) by (auto simp: pending_insert split: if_splits)
    then have "ready_net ctx F m"
      unfolding ready_net_def using s(1,2,3,4,5) by fast
    then show ?thesis by simp
  qed
qed

lemma kahn_port_step:
  assumes wf: "wf_netlist ctx"
    and inv: "kahn_inv ctx done F (order, queue, fanin)"
    and cur: "N \<in> set done" "(c, i) \<in> set (sinks ctx N)" "getPortClock ctx c i = 0"
    and kp: "(k, p) \<in> set (cell_ports (cell_at ctx c))"
    and fresh0: "fires ctx c i (k, p) \<Longrightarrow> (c, i, k) \<notin> F"
    and usr: "cell usr = c" "port usr = i"
  shows "\<exists>st'. kahn_port ctx usr (k, p) (order, queue, fanin) = Inr st'
           \<and> kahn_inv ctx done (F \<union> events_of_ports ctx c i [(k, p)]) st'"
proof (cases "fires ctx c i (k, p)")
  case False
  then have "kahn_port ctx usr (k, p) (order, queue, fanin) = Inr (order, queue, fanin)"
    using kahn_port_no_event [of ctx usr "(k, p)"] usr by simp
  moreover have "events_of_ports ctx c i [(k, p)] = {}"
    using False by (simp add: events_of_ports_single)
  ultimately show ?thesis using inv by simp
next
  case True
  have fresh: "(c, i, k) \<notin> F" using fresh0 True by simp
  from inv have
    ord: "order = done @ queue" and dist: "distinct order" and sub: "set order \<subseteq> set (nets ctx)" and
    mf: "map_of fanin = fanin_spec ctx F" and
    k5: "\<forall>n\<in>set order. seed_net ctx n \<or> ready_net ctx F n" and
    prec: "precedes_ok ctx order" and
    Fsub: "F \<subseteq> (\<Union>n\<in>set done. events_of_net ctx n)" and
    seeds: "\<forall>n. seed_net ctx n \<longrightarrow> n \<in> set order" and
    rdys: "\<forall>n. ready_net ctx F n \<longrightarrow> n \<in> set order"
    by (auto simp: kahn_inv_def)
  from True obtain n d where
    pt: "port_type p = PORT_OUT" and pn: "port_net p = Some n" and cd: "getCellDelay ctx c i k = Some d"
    by (auto simp: fires_def)
  have Nn: "N \<in> set (nets ctx)" using cur(1) ord sub by auto
  have c: "c \<in> set (cells ctx)" by (rule wf_sink(1) [OF wf Nn cur(2)])
  have i: "i \<in> set (input_ports (cell_at ctx c))" by (rule wf_sink_input [OF wf Nn cur(2)])
  have o: "(k, p) \<in> set (output_ports (cell_at ctx c))"
    using kp pt pn by (simp add: output_ports_def)
  have noseed: "\<not> seed_port ctx c k"
    using wf_seed_no_path [OF wf c o _ i cur(3)] cd by auto
  then have unclk: "getPortClock ctx c k = 0" by (simp add: seed_port_def)
  have tr: "tracked ctx c k"
    using c o unclk by (force simp: tracked_def)
  have ic: "i \<in> counted ctx c k" using i cd by (simp add: counted_def)
  have ip: "i \<in> pending ctx F c k" using ic fresh by (simp add: pending_def)
  let ?r = "card (pending ctx F c k)"
  have rpos: "?r > 0" using ip by (auto simp: card_gt_0_iff)
  have m: "map_of fanin (c, k) = Some ?r"
    using mf tr ip by (auto simp: fanin_spec_def)
  let ?F' = "F \<union> events_of_ports ctx c i [(k, p)]"
  have F': "?F' = insert (c, i, k) F"
    using True by (simp add: events_of_ports_single)
  have spec': "fanin_spec ctx ?F' = (fanin_spec ctx F)((c, k) :=
              (if ?r = 1 then None else Some (?r - 1)))"
    unfolding F' by (rule fanin_spec_insert [OF tr ip])
  have ev: "(c, i, k) \<in> events_of_net ctx N"
    by (rule events_of_net_intro [OF cur(2,3) kp True])
  have F'sub: "?F' \<subseteq> (\<Union>n\<in>set done. events_of_net ctx n)"
    unfolding F' using Fsub ev cur(1) by auto
  have k5': "\<forall>n\<in>set order. seed_net ctx n \<or> ready_net ctx ?F' n"
    using k5 ready_net_mono [of F ?F'] by auto
  have rdy_new: "ready_net ctx F m \<or> (m = n \<and> pending ctx F c k \<subseteq> {i})"
    if "ready_net ctx ?F' m" for m
    using ready_net_insert [OF wf c o pn that [unfolded F']] .
  show ?thesis
  proof (cases "?r = 1")
    case False
    have rdys': "\<forall>m. ready_net ctx ?F' m \<longrightarrow> m \<in> set order"
    proof (intro allI impI)
      fix m assume "ready_net ctx ?F' m"
      from rdy_new [OF this] show "m \<in> set order"
      proof
        assume "ready_net ctx F m"
        with rdys show ?thesis by blast
      next
        assume "m = n \<and> pending ctx F c k \<subseteq> {i}"
        then have "pending ctx F c k = {i}" using ip by auto
        then have "?r = 1" by simp
        with False show ?thesis by simp
      qed
    qed
    from False have run: "kahn_port ctx usr (k, p) (order, queue, fanin)
                    = Inr (order, queue, AList.update (c, k) (?r - 1) fanin)"
      using rpos ip pt pn cd m usr by (auto simp: kahn_port_def Let_def)
    have "map_of (AList.update (c, k) (?r - 1) fanin) = fanin_spec ctx ?F'"
      using False by (simp add: update_conv' mf spec')
    then have "kahn_inv ctx done ?F' (order, queue, AList.update (c, k) (?r - 1) fanin)"
      using ord dist sub k5' prec F'sub seeds rdys' by (simp add: kahn_inv_def)
    then show ?thesis using run by blast
  next
    case r1: True
    then have run: "kahn_port ctx usr (k, p) (order, queue, fanin)
                    = Inr (order @ [n], queue @ [n], AList.delete (c, k) fanin)"
      using pt pn cd m usr by (simp add: kahn_port_def Let_def)
    have mf': "map_of (AList.delete (c, k) fanin) = fanin_spec ctx ?F'"
      using r1 by (simp add: delete_conv' mf spec')
    have pend': "pending ctx ?F' c k = {}"
    proof -
      have "card (pending ctx ?F' c k) = 0"
        unfolding F' using r1 ip by (simp add: pending_insert)
      then show ?thesis by simp
    qed
    have nnew: "n \<notin> set order"
    proof
      assume "n \<in> set order"
      with k5 have "seed_net ctx n \<or> ready_net ctx F n" by blast
      then show False
      proof
        assume "seed_net ctx n"
        then obtain c' k' p' where s: "c' \<in> set (cells ctx)"
          "(k', p') \<in> set (output_ports (cell_at ctx c'))" "seed_port ctx c' k'" "port_net p' = Some n"
          by (auto simp: seed_net_def)
        have "c = c' \<and> k = k'"
          using wf_single_driver [OF wf c s(1) o s(2)] pn s(4) by simp
        then show False using noseed s(3) by simp
      next
        assume "ready_net ctx F n"
        then obtain c' k' p' where s: "c' \<in> set (cells ctx)"
          "(k', p') \<in> set (output_ports (cell_at ctx c'))" "port_net p' = Some n"
          "pending ctx F c' k' = {}"
          by (auto simp: ready_net_def)
        have "c = c' \<and> k = k'"
          using wf_single_driver [OF wf c s(1) o s(2)] pn s(3) by simp
        then show False using ip s(4) by auto
      qed
    qed
    have nnet: "n \<in> set (nets ctx)" by (rule wf_port_net(1) [OF wf c kp pn])
    have rdy: "ready_net ctx ?F' n"
      unfolding ready_net_def using c o pn unclk ic pend' by fast
    have prec': "precedes_ok ctx (order @ [n])"
      unfolding precedes_ok_def
    proof (intro allI impI ballI)
      fix j a
      assume j: "j < length (order @ [n])" and a: "a \<in> set (nets ctx)"
        and e: "comb_edge ctx a ((order @ [n]) ! j)"
      show "a \<in> set (take j (order @ [n]))"
      proof (cases "j < length order")
        case True
        then show ?thesis
          using prec a e by (auto simp: precedes_ok_def nth_append)
      next
        case False
        with j have jl: "j = length order" by simp
        then have e': "comb_edge ctx a n" using e by simp
        from comb_edge_driver [OF wf a e'] obtain c' i' k' p' where d:
          "(c', i') \<in> set (sinks ctx a)" "getPortClock ctx c' i' = 0" "c' \<in> set (cells ctx)"
          "(k', p') \<in> set (output_ports (cell_at ctx c'))" "port_net p' = Some n"
          "getCellDelay ctx c' i' k' \<noteq> None" "i' \<in> set (input_ports (cell_at ctx c'))"
          by metis
        have eq: "c' = c \<and> k' = k"
          using wf_single_driver [OF wf d(3) c d(4) o] d(5) pn by simp
        then have "i' \<in> counted ctx c k" using d(6,7) by (simp add: counted_def)
        with pend' have "(c, i', k) \<in> ?F'" by (auto simp: pending_def)
        with F'sub obtain N' where N': "N' \<in> set done" "(c, i', k) \<in> events_of_net ctx N'"
          by auto
        have N'n: "N' \<in> set (nets ctx)" using N'(1) ord sub by auto
        have "(c', i') \<in> set (sinks ctx N')"
          using events_of_net_sink(1) [OF N'(2)] eq by simp
        then have "a = N'" by (rule wf_sink_net_unique [OF wf a N'n d(1)])
        then show ?thesis using N'(1) ord jl by simp
      qed
    qed
    have seeds': "\<forall>m. seed_net ctx m \<longrightarrow> m \<in> set (order @ [n])"
      using seeds by simp
    have rdys': "\<forall>m. ready_net ctx ?F' m \<longrightarrow> m \<in> set (order @ [n])"
      using rdy_new rdys by fastforce
    have "kahn_inv ctx done ?F' (order @ [n], queue @ [n], AList.delete (c, k) fanin)"
      using ord dist sub nnew nnet mf' k5' rdy prec' F'sub seeds' rdys'
      by (simp add: kahn_inv_def)
    then show ?thesis using run by blast
  qed
qed

lemma foldM_total_prefix:
  assumes "I [] s"
    and step: "\<And>pre x post s. xs = pre @ x # post \<Longrightarrow> I pre s \<Longrightarrow>
                 \<exists>s'. f x s = Inr s' \<and> I (pre @ [x]) s'"
  shows "\<exists>s'. foldM f xs s = Inr s' \<and> I xs s'"
proof -
  have "xs = pre @ rest \<Longrightarrow> I pre s \<Longrightarrow> \<exists>s'. foldM f rest s = Inr s' \<and> I xs s'" for pre rest s
  proof (induction rest arbitrary: pre s)
    case Nil
    then show ?case by simp
  next
    case (Cons x rest)
    from step [OF Cons.prems(1) Cons.prems(2)] obtain s1 where
      s1: "f x s = Inr s1" "I (pre @ [x]) s1" by blast
    have "xs = (pre @ [x]) @ rest" using Cons.prems(1) by simp
    from Cons.IH [OF this s1(2)] show ?case using s1(1) by simp
  qed
  from this [of "[]" xs s] assms(1) show ?thesis by simp
qed

lemma kahn_user_step:
  assumes wf: "wf_netlist ctx"
    and inv: "kahn_inv ctx done F st"
    and cur: "N \<in> set done" "(cell u, port u) \<in> set (sinks ctx N)"
    and fresh: "events_of_sink ctx (cell u, port u) \<inter> F = {}"
  shows "\<exists>st'. kahn_user ctx u st = Inr st'
           \<and> kahn_inv ctx done (F \<union> events_of_sink ctx (cell u, port u)) st'"
proof (cases "getPortClock ctx (cell u) (port u) \<noteq> 0")
  case True
  then show ?thesis using inv by (simp add: kahn_user_def events_of_sink_def)
next
  case False
  then have unclk: "getPortClock ctx (cell u) (port u) = 0" by simp
  let ?c = "cell u" and ?i = "port u"
  let ?ps = "cell_ports (cell_at ctx ?c)"
  from inv have Nn: "N \<in> set (nets ctx)"
    using cur(1) by (cases st) (auto simp: kahn_inv_def)
  have c: "?c \<in> set (cells ctx)" by (rule wf_sink(1) [OF wf Nn cur(2)])
  have dk: "distinct (map fst ?ps)" using wf c by (simp add: wf_netlist_def)
  have es: "events_of_sink ctx (?c, ?i) = events_of_ports ctx ?c ?i ?ps"
    using unclk by (simp add: events_of_sink_def)
  have "\<exists>st'. foldM (kahn_port ctx u) ?ps st = Inr st'
           \<and> kahn_inv ctx done (F \<union> events_of_ports ctx ?c ?i ?ps) st'"
  proof (rule foldM_total_prefix
           [where I = "\<lambda>pre st. kahn_inv ctx done (F \<union> events_of_ports ctx ?c ?i pre) st"])
    show "kahn_inv ctx done (F \<union> events_of_ports ctx ?c ?i []) st"
      using inv by (simp add: events_of_ports_def)
  next
    fix pre x post s
    assume split: "?ps = pre @ x # post"
      and I: "kahn_inv ctx done (F \<union> events_of_ports ctx ?c ?i pre) s"
    obtain k p where x: "x = (k, p)" by (cases x)
    obtain order queue fanin where s: "s = (order, queue, fanin)" by (cases s)
    have kp: "(k, p) \<in> set ?ps" using split x by simp
    have fr: "(?c, ?i, k) \<notin> F \<union> events_of_ports ctx ?c ?i pre" if f: "fires ctx ?c ?i (k, p)"
    proof -
      have "(?c, ?i, k) \<in> events_of_sink ctx (?c, ?i)"
        unfolding es using kp f by (force simp: events_of_ports_def)
      then have 1: "(?c, ?i, k) \<notin> F" using fresh by auto
      have "k \<notin> fst ` set pre" using dk split x by auto
      then have 2: "(?c, ?i, k) \<notin> events_of_ports ctx ?c ?i pre"
        by (auto simp: events_of_ports_def)
      show ?thesis using 1 2 by simp
    qed
    from kahn_port_step [OF wf I [unfolded s] cur(1) cur(2) unclk kp fr refl refl]
    obtain st' where
      "kahn_port ctx u (k, p) (order, queue, fanin) = Inr st'"
      "kahn_inv ctx done (F \<union> events_of_ports ctx ?c ?i pre \<union> events_of_ports ctx ?c ?i [(k, p)]) st'"
      by blast
    then show "\<exists>s'. kahn_port ctx u x s = Inr s'
                 \<and> kahn_inv ctx done (F \<union> events_of_ports ctx ?c ?i (pre @ [x])) s'"
      by (auto simp: x s events_of_ports_snoc Un_assoc)
  qed
  then show ?thesis using unclk by (simp add: kahn_user_def es)
qed

lemma events_of_sink_disjoint:
  "ci \<noteq> ci' \<Longrightarrow> events_of_sink ctx ci \<inter> events_of_sink ctx ci' = {}"
  by (cases ci; cases ci') (auto simp: events_of_sink_def events_of_ports_def split: if_splits)

lemma kahn_net_step:
  assumes wf: "wf_netlist ctx"
    and inv: "kahn_inv ctx done F st"
    and cur: "N \<in> set done"
    and fresh: "events_of_net ctx N \<inter> F = {}"
  shows "\<exists>st'. kahn_net ctx N st = Inr st' \<and> kahn_inv ctx done (F \<union> events_of_net ctx N) st'"
proof -
  let ?us = "users (net_at ctx N)"
  let ?E = "\<lambda>us. (\<Union>u\<in>set us. events_of_sink ctx (cell u, port u))"
  from inv have Nn: "N \<in> set (nets ctx)"
    using cur by (cases st) (auto simp: kahn_inv_def)
  have ds: "distinct (map (\<lambda>u. (cell u, port u)) ?us)"
    using wf Nn by (simp add: wf_netlist_def sinks_def)
  have en: "events_of_net ctx N = ?E ?us"
    by (simp add: events_of_net_def sinks_def)
  have "\<exists>st'. foldM (kahn_user ctx) ?us st = Inr st' \<and> kahn_inv ctx done (F \<union> ?E ?us) st'"
  proof (rule foldM_total_prefix [where I = "\<lambda>pre st. kahn_inv ctx done (F \<union> ?E pre) st"])
    show "kahn_inv ctx done (F \<union> ?E []) st" using inv by simp
  next
    fix pre u post s
    assume split: "?us = pre @ u # post" and I: "kahn_inv ctx done (F \<union> ?E pre) s"
    have mem: "(cell u, port u) \<in> set (sinks ctx N)"
      using split by (simp add: sinks_def)
    have "events_of_sink ctx (cell u, port u) \<subseteq> events_of_net ctx N"
      unfolding en using split by auto
    then have f1: "events_of_sink ctx (cell u, port u) \<inter> F = {}" using fresh by auto
    have f2: "events_of_sink ctx (cell u, port u) \<inter> ?E pre = {}"
    proof -
      have ne: "(cell u, port u) \<noteq> (cell u', port u')" if "u' \<in> set pre" for u'
      proof -
        have "(cell u, port u) \<notin> (\<lambda>u. (cell u, port u)) ` set pre"
          using ds unfolding split by auto
        then show ?thesis using that by (auto simp: image_iff)
      qed
      have "events_of_sink ctx (cell u, port u) \<inter> events_of_sink ctx (cell u', port u') = {}"
        if "u' \<in> set pre" for u'
        by (rule events_of_sink_disjoint [OF ne [OF that]])
      then show ?thesis by blast
    qed
    have fr: "events_of_sink ctx (cell u, port u) \<inter> (F \<union> ?E pre) = {}"
      using f1 f2 by blast
    have "F \<union> ?E pre \<union> events_of_sink ctx (cell u, port u) = F \<union> ?E (pre @ [u])"
      by auto
    with kahn_user_step [OF wf I cur mem fr]
    show "\<exists>s'. kahn_user ctx u s = Inr s' \<and> kahn_inv ctx done (F \<union> ?E (pre @ [u])) s'"
      by simp
  qed
  then show ?thesis by (simp add: kahn_net_def en)
qed

lemma events_of_net_disjoint:
  assumes wf: "wf_netlist ctx" and "n \<in> set (nets ctx)" "n' \<in> set (nets ctx)" "n \<noteq> n'"
  shows "events_of_net ctx n \<inter> events_of_net ctx n' = {}"
proof -
  have False if "e \<in> events_of_net ctx n" "e \<in> events_of_net ctx n'" for e
  proof -
    obtain c i k where e: "e = (c, i, k)" by (cases e)
    have "n = n'"
      using wf_sink_net_unique [OF wf assms(2,3)]
        events_of_net_sink(1) [of c i k ctx n] events_of_net_sink(1) [of c i k ctx n'] that e
      by simp
    then show False using assms(4) by simp
  qed
  then show ?thesis by blast
qed


lemma fold_prefix_inv:
  assumes "I [] s"
    and step: "\<And>pre x post s. xs = pre @ x # post \<Longrightarrow> I pre s \<Longrightarrow> I (pre @ [x]) (f x s)"
  shows "I xs (fold f xs s)"
proof -
  have "xs = pre @ rest \<Longrightarrow> I pre s \<Longrightarrow> I xs (fold f rest s)" for pre rest s
  proof (induction rest arbitrary: pre s)
    case Nil
    then show ?case by simp
  next
    case (Cons x rest)
    have 1: "I (pre @ [x]) (f x s)" by (rule step [OF Cons.prems])
    have "xs = (pre @ [x]) @ rest" using Cons.prems(1) by simp
    from Cons.IH [OF this 1] show ?case by simp
  qed
  from this [of "[]" xs s] assms(1) show ?thesis by simp
qed

lemma map_of_fanin_incr:
  "map_of (fanin_incr q fanin) = (map_of fanin)(q := bump (map_of fanin q) 1)"
  by (auto simp: fanin_incr_def update_conv' bump_def split: option.splits)

lemma bump_bump: "bump (bump v (Suc 0)) m = bump v (Suc m)"
  by (auto simp: bump_def split: option.splits)

lemma fold_fanin_incr:
  "map_of (fold (\<lambda>i f. if P i then fanin_incr q f else f) ins fanin)
     = (map_of fanin)(q := bump (map_of fanin q) (length (filter P ins)))"
proof (induction ins arbitrary: fanin)
  case Nil
  then show ?case by (simp add: bump_def)
next
  case (Cons i ins)
  show ?case
  proof (cases "P i")
    case True
    then show ?thesis
      by (simp add: Cons.IH map_of_fanin_incr bump_bump fun_eq_iff)
  next
    case False
    then show ?thesis by (simp add: Cons.IH)
  qed
qed

lemma init_output_fst:
  assumes "port_net p = Some n"
  shows "fst (init_output ctx c (cell_type (cell_at ctx c) = id_sb_io ctx) ins (k, p) st)
         = fst st @ (if seed_port ctx c (port_name p) then [n] else [])"
  using assms by (cases st) (auto simp: init_output_def Let_def seed_port_def)

lemma init_output_fanin:
  assumes "port_net p = Some n"
  shows "map_of (fst (snd (init_output ctx c is_io ins (k, p) st)))
         = (if getPortClock ctx c (port_name p) \<noteq> 0 then map_of (fst (snd st))
            else (map_of (fst (snd st)))((c, k) :=
                   bump (map_of (fst (snd st)) (c, k))
                     (length (filter (\<lambda>i. getCellDelay ctx c i (port_name p) \<noteq> None) ins))))"
  using assms by (cases st) (simp add: init_output_def Let_def fold_fanin_incr)

lemma output_ports_net: "kp \<in> set (output_ports ci) \<Longrightarrow> \<exists>n. port_net (snd kp) = Some n"
  by (auto simp: output_ports_def)

lemma init_cell_fst: "fst (init_cell ctx c st) = fst st @ seeds_of_cell ctx c"
proof -
  have "set os \<subseteq> set (output_ports (cell_at ctx c)) \<Longrightarrow>
        fst (fold (init_output ctx c (cell_type (cell_at ctx c) = id_sb_io ctx) ins) os st)
        = fst st @ map (\<lambda>kp. the (port_net (snd kp)))
                     (filter (\<lambda>kp. seed_port ctx c (port_name (snd kp))) os)" for os ins st
  proof (induction os arbitrary: st)
    case Nil
    then show ?case by simp
  next
    case (Cons kp os)
    obtain k p where kp: "kp = (k, p)" by (cases kp)
    from Cons.prems obtain n where n: "port_net p = Some n"
      using output_ports_net [of kp] kp by auto
    show ?case
      using Cons.IH Cons.prems by (simp add: kp init_output_fst [OF n] n)
  qed
  from this [of "output_ports (cell_at ctx c)"] show ?thesis
    by (simp add: init_cell_def seeds_of_cell_def)
qed

lemma init_cells_fst:
  "fst (fold (init_cell ctx) cs st) = fst st @ concat (map (seeds_of_cell ctx) cs)"
  by (induction cs arbitrary: st) (simp_all add: init_cell_fst)

lemma init_all_fst: "fst (init_all ctx) = concat (map (seeds_of_cell ctx) (cells ctx))"
  by (simp add: init_all_def init_cells_fst)

lemma distinct_output_ports:
  "distinct (map fst (cell_ports ci)) \<Longrightarrow> distinct (map fst (output_ports ci))"
  unfolding output_ports_def by (rule distinct_map_filter)

lemma distinct_input_ports:
  "distinct (map fst (cell_ports ci)) \<Longrightarrow> distinct (input_ports ci)"
  unfolding input_ports_def by (rule distinct_map_filter)

lemma output_ports_subset: "set (output_ports ci) \<subseteq> set (cell_ports ci)"
  by (auto simp: output_ports_def)

lemma wf_distinct_ports:
  "wf_netlist ctx \<Longrightarrow> c \<in> set (cells ctx) \<Longrightarrow> distinct (map fst (cell_ports (cell_at ctx c)))"
  by (simp add: wf_netlist_def)

lemma fanin_spec_empty:
  assumes wf: "wf_netlist ctx" and c: "c \<in> set (cells ctx)"
  shows "fanin_spec ctx {} (c, k)
         = (if k \<in> fst ` set (output_ports (cell_at ctx c)) \<and> getPortClock ctx c k = 0
            then bump None (length (filter (\<lambda>i. getCellDelay ctx c i k \<noteq> None)
                                     (input_ports (cell_at ctx c))))
            else None)"
proof -
  let ?ins = "input_ports (cell_at ctx c)"
  let ?f = "filter (\<lambda>i. getCellDelay ctx c i k \<noteq> None) ?ins"
  have d: "distinct ?f"
    using distinct_input_ports [OF wf_distinct_ports [OF wf c]] by simp
  have p: "pending ctx {} c k = set ?f"
    by (auto simp: pending_def counted_def)
  have cd: "card (set ?f) = length ?f" using d by (rule distinct_card)
  show ?thesis
  proof (cases "?f = []")
    case True
    have "pending ctx {} c k = {}" unfolding p set_empty by (rule True)
    moreover define m where "m = length ?f"
    moreover have "m = 0" using True by (simp add: m_def)
    ultimately show ?thesis
      unfolding fanin_spec_def bump_def m_def [symmetric] by simp
  next
    case False
    have ne: "pending ctx {} c k \<noteq> {}" unfolding p set_empty by (rule False)
    define m where "m = length ?f"
    have m0: "m \<noteq> 0" using False by (simp add: m_def)
    have cm: "card (pending ctx {} c k) = m" unfolding p m_def by (rule cd)
    show ?thesis
      unfolding fanin_spec_def bump_def tracked_def m_def [symmetric]
      using ne cm m0 c by simp
  qed
qed

lemma init_cell_fanin:
  assumes wf: "wf_netlist ctx" and c: "c \<in> set (cells ctx)"
    and fresh: "\<And>k. map_of (fst (snd st)) (c, k) = None"
  shows "map_of (fst (snd (init_cell ctx c st)))
         = (\<lambda>q. if fst q = c then fanin_spec ctx {} q else map_of (fst (snd st)) q)"
proof -
  let ?os = "output_ports (cell_at ctx c)"
  let ?ins = "input_ports (cell_at ctx c)"
  let ?io = "cell_type (cell_at ctx c) = id_sb_io ctx"
  let ?M0 = "map_of (fst (snd st))"
  let ?I = "\<lambda>pre s. map_of (fst (snd s))
              = (\<lambda>q. if fst q = c \<and> snd q \<in> fst ` set pre then fanin_spec ctx {} q else ?M0 q)"
  have dk: "distinct (map fst ?os)"
    by (rule distinct_output_ports [OF wf_distinct_ports [OF wf c]])
  have "?I ?os (fold (init_output ctx c ?io ?ins) ?os st)"
  proof (rule fold_prefix_inv [where I = ?I])
    show "?I [] st" by simp
  next
    fix pre x post and s :: "NetPtr list \<times> fanin_map \<times> net_data_map"
    assume split: "?os = pre @ x # post" and I: "?I pre s"
    obtain k p where x: "x = (k, p)" by (cases x)
    have mem: "(k, p) \<in> set ?os" using split x by simp
    then obtain n where n: "port_net p = Some n"
      using output_ports_net [of "(k, p)"] by auto
    have kp: "(k, p) \<in> set (cell_ports (cell_at ctx c))"
      using mem output_ports_subset by blast
    have name: "port_name p = k" by (rule wf_port_net(2) [OF wf c kp n])
    have knew: "k \<notin> fst ` set pre" using dk split x by auto
    have cur: "map_of (fst (snd s)) (c, k) = None"
      using I knew fresh by simp
    have kin: "k \<in> fst ` set ?os" using mem by force
    have spec: "fanin_spec ctx {} (c, k)
                = (if getPortClock ctx c k = 0
                   then bump None (length (filter (\<lambda>i. getCellDelay ctx c i k \<noteq> None) ?ins))
                   else None)"
      using kin by (simp add: fanin_spec_empty [OF wf c])
    have "map_of (fst (snd (init_output ctx c ?io ?ins (k, p) s)))
          = (map_of (fst (snd s)))((c, k) := fanin_spec ctx {} (c, k))"
      using cur by (auto simp: init_output_fanin [OF n] name spec fun_eq_iff)
    then show "?I (pre @ [x]) (init_output ctx c ?io ?ins x s)"
      using I by (auto simp: x fun_eq_iff)
  qed
  moreover have "fanin_spec ctx {} (c, k) = None" if "k \<notin> fst ` set ?os" for k
    using that by (simp add: fanin_spec_def tracked_def)
  ultimately show ?thesis
    using fresh by (auto simp: init_cell_def fun_eq_iff)
qed

lemma init_cells_fanin:
  assumes wf: "wf_netlist ctx"
  shows "distinct cs \<Longrightarrow> set cs \<subseteq> set (cells ctx) \<Longrightarrow>
         (\<And>c k. c \<in> set cs \<Longrightarrow> map_of (fst (snd st)) (c, k) = None) \<Longrightarrow>
         map_of (fst (snd (fold (init_cell ctx) cs st)))
           = (\<lambda>q. if fst q \<in> set cs then fanin_spec ctx {} q else map_of (fst (snd st)) q)"
proof (induction cs arbitrary: st)
  case Nil
  then show ?case by simp
next
  case (Cons c cs)
  have c: "c \<in> set (cells ctx)" using Cons.prems(2) by simp
  have 1: "map_of (fst (snd (init_cell ctx c st)))
         = (\<lambda>q. if fst q = c then fanin_spec ctx {} q else map_of (fst (snd st)) q)"
    by (rule init_cell_fanin [OF wf c]) (simp add: Cons.prems(3))
  have 2: "map_of (fst (snd (fold (init_cell ctx) cs (init_cell ctx c st))))
           = (\<lambda>q. if fst q \<in> set cs then fanin_spec ctx {} q
                  else map_of (fst (snd (init_cell ctx c st))) q)"
  proof (rule Cons.IH)
    show "distinct cs" using Cons.prems(1) by simp
    show "set cs \<subseteq> set (cells ctx)" using Cons.prems(2) by simp
    fix c' k assume "c' \<in> set cs"
    then have "c' \<noteq> c" using Cons.prems(1) by auto
    then show "map_of (fst (snd (init_cell ctx c st))) (c', k) = None"
      using Cons.prems(3) [of c' k] \<open>c' \<in> set cs\<close> by (simp add: 1)
  qed
  show ?case by (auto simp: 2 1 fun_eq_iff)
qed

lemma init_all_fanin:
  assumes wf: "wf_netlist ctx"
  shows "map_of (fst (snd (init_all ctx))) = fanin_spec ctx {}"
proof -
  have d: "distinct (cells ctx)" using wf by (simp add: wf_netlist_def)
  let ?st0 = "([], [], Map.empty) :: NetPtr list \<times> fanin_map \<times> net_data_map"
  have e: "map_of (fst (snd ?st0)) q = None" for q by simp
  have "map_of (fst (snd (fold (init_cell ctx) (cells ctx) ?st0)))
        = (\<lambda>q. if fst q \<in> set (cells ctx) then fanin_spec ctx {} q
               else map_of (fst (snd ?st0)) q)"
    by (rule init_cells_fanin [OF wf d]) (simp_all only: e subset_refl)
  then have "map_of (fst (snd (init_all ctx)))
        = (\<lambda>q. if fst q \<in> set (cells ctx) then fanin_spec ctx {} q else None)"
    unfolding init_all_def e .
  moreover have "fanin_spec ctx {} q = None" if "fst q \<notin> set (cells ctx)" for q
    using that by (simp add: fanin_spec_def tracked_def)
  ultimately show ?thesis by (auto simp: fun_eq_iff)
qed

lemma distinct_concat_map:
  assumes "distinct xs" and "\<And>x. x \<in> set xs \<Longrightarrow> distinct (f x)"
    and "\<And>x y. x \<in> set xs \<Longrightarrow> y \<in> set xs \<Longrightarrow> x \<noteq> y \<Longrightarrow> set (f x) \<inter> set (f y) = {}"
  shows "distinct (concat (map f xs))"
  using assms
proof (induction xs)
  case Nil
  then show ?case by simp
next
  case (Cons x xs)
  have "distinct (concat (map f xs))"
    using Cons.prems by (intro Cons.IH) auto
  moreover have "set (f x) \<inter> set (f y) = {}" if "y \<in> set xs" for y
    using Cons.prems(1) Cons.prems(3) [of x y] that by auto
  ultimately show ?case using Cons.prems(2) [of x] by auto
qed

lemma seeds_of_cell_mem:
  assumes wf: "wf_netlist ctx" and c: "c \<in> set (cells ctx)" and n: "n \<in> set (seeds_of_cell ctx c)"
  obtains k p where "(k, p) \<in> set (output_ports (cell_at ctx c))" "port_net p = Some n"
    "seed_port ctx c k"
proof -
  from n obtain k p where
    mem: "(k, p) \<in> set (output_ports (cell_at ctx c))" and
    sp: "seed_port ctx c (port_name p)" and nn: "n = the (port_net p)"
    by (auto simp: seeds_of_cell_def)
  from output_ports_net [OF mem] obtain n' where n': "port_net p = Some n'" by auto
  have kp: "(k, p) \<in> set (cell_ports (cell_at ctx c))" using mem output_ports_subset by blast
  have "port_name p = k" by (rule wf_port_net(2) [OF wf c kp n'])
  then show thesis using that [OF mem] n' nn sp by simp
qed

lemma distinct_seeds_of_cell:
  assumes wf: "wf_netlist ctx" and c: "c \<in> set (cells ctx)"
  shows "distinct (seeds_of_cell ctx c)"
proof -
  let ?os = "output_ports (cell_at ctx c)"
  let ?fs = "filter (\<lambda>kp. seed_port ctx c (port_name (snd kp))) ?os"
  have "distinct (map fst ?os)"
    by (rule distinct_output_ports [OF wf_distinct_ports [OF wf c]])
  then have d: "distinct ?fs" by (simp add: distinct_map)
  have "inj_on (\<lambda>kp. the (port_net (snd kp))) (set ?fs)"
  proof (rule inj_onI)
    fix x y assume x: "x \<in> set ?fs" and y: "y \<in> set ?fs"
      and eq: "the (port_net (snd x)) = the (port_net (snd y))"
    obtain k p where xe: "x = (k, p)" by (cases x)
    obtain k' p' where ye: "y = (k', p')" by (cases y)
    have mx: "(k, p) \<in> set ?os" and my: "(k', p') \<in> set ?os" using x y xe ye by auto
    from output_ports_net [OF mx] output_ports_net [OF my] eq
    have pe: "port_net p = port_net p'" by (auto simp: xe ye)
    have "k = k'" using wf_single_driver [OF wf c c mx my pe] by simp
    moreover have "p = p'"
      using wf_port_unique [OF wf c, of k p p'] mx my output_ports_subset \<open>k = k'\<close> by blast
    ultimately show "x = y" by (simp add: xe ye)
  qed
  then show ?thesis unfolding seeds_of_cell_def using d by (simp add: distinct_map)
qed

lemma init_all_seeds:
  assumes wf: "wf_netlist ctx"
  shows "distinct (fst (init_all ctx))"
    and "\<And>n. n \<in> set (fst (init_all ctx)) \<Longrightarrow> seed_net ctx n \<and> n \<in> set (nets ctx)"
proof -
  have d: "distinct (cells ctx)" using wf by (simp add: wf_netlist_def)
  show "distinct (fst (init_all ctx))"
    unfolding init_all_fst
  proof (rule distinct_concat_map [OF d])
    show "\<And>c. c \<in> set (cells ctx) \<Longrightarrow> distinct (seeds_of_cell ctx c)"
      by (rule distinct_seeds_of_cell [OF wf])
  next
    fix c c' assume c: "c \<in> set (cells ctx)" and c': "c' \<in> set (cells ctx)" and ne: "c \<noteq> c'"
    show "set (seeds_of_cell ctx c) \<inter> set (seeds_of_cell ctx c') = {}"
    proof (rule ccontr)
      assume "set (seeds_of_cell ctx c) \<inter> set (seeds_of_cell ctx c') \<noteq> {}"
      then obtain n where n: "n \<in> set (seeds_of_cell ctx c)" "n \<in> set (seeds_of_cell ctx c')"
        by auto
      from seeds_of_cell_mem [OF wf c n(1)] obtain k p where
        1: "(k, p) \<in> set (output_ports (cell_at ctx c))" "port_net p = Some n" by metis
      from seeds_of_cell_mem [OF wf c' n(2)] obtain k' p' where
        2: "(k', p') \<in> set (output_ports (cell_at ctx c'))" "port_net p' = Some n" by metis
      have "c = c'" using wf_single_driver [OF wf c c' 1(1) 2(1)] 1(2) 2(2) by simp
      then show False using ne by simp
    qed
  qed
  fix n assume "n \<in> set (fst (init_all ctx))"
  then obtain c where c: "c \<in> set (cells ctx)" and n: "n \<in> set (seeds_of_cell ctx c)"
    by (auto simp: init_all_fst)
  from seeds_of_cell_mem [OF wf c n] obtain k p where
    1: "(k, p) \<in> set (output_ports (cell_at ctx c))" "port_net p = Some n" "seed_port ctx c k"
    by metis
  have kp: "(k, p) \<in> set (cell_ports (cell_at ctx c))" using 1(1) output_ports_subset by blast
  have "seed_net ctx n" unfolding seed_net_def using c 1 by fast
  moreover have "n \<in> set (nets ctx)" by (rule wf_port_net(1) [OF wf c kp 1(2)])
  ultimately show "seed_net ctx n \<and> n \<in> set (nets ctx)" by simp
qed

lemma init_all_seeds_complete:
  assumes wf: "wf_netlist ctx" and n: "seed_net ctx n"
  shows "n \<in> set (fst (init_all ctx))"
proof -
  from n obtain c k p where c: "c \<in> set (cells ctx)"
    and o: "(k, p) \<in> set (output_ports (cell_at ctx c))"
    and sp: "seed_port ctx c k" and pn: "port_net p = Some n"
    by (auto simp: seed_net_def)
  have kp: "(k, p) \<in> set (cell_ports (cell_at ctx c))" using o output_ports_subset by blast
  have name: "port_name p = k" by (rule wf_port_net(2) [OF wf c kp pn])
  have "(k, p) \<in> set (filter (\<lambda>kp. seed_port ctx c (port_name (snd kp)))
                          (output_ports (cell_at ctx c)))"
    using o sp name by simp
  then have "(\<lambda>kp. the (port_net (snd kp))) (k, p)
             \<in> (\<lambda>kp. the (port_net (snd kp))) `
                 set (filter (\<lambda>kp. seed_port ctx c (port_name (snd kp)))
                        (output_ports (cell_at ctx c)))"
    by (rule imageI)
  then have "n \<in> set (seeds_of_cell ctx c)" using pn by (simp add: seeds_of_cell_def)
  then show ?thesis using c by (auto simp: init_all_fst)
qed

lemma init_inv:
  assumes wf: "wf_netlist ctx" and init: "init_all ctx = (order, fanin, nd)"
  shows "kahn_inv ctx [] {} (order, order, fanin)"
proof -
  have o: "order = fst (init_all ctx)" and f: "fanin = fst (snd (init_all ctx))"
    using init by simp_all
  note s = init_all_seeds [OF wf, folded o]
  have "precedes_ok ctx order"
    unfolding precedes_ok_def
  proof (intro allI impI ballI)
    fix j a assume "j < length order" "a \<in> set (nets ctx)" "comb_edge ctx a (order ! j)"
    then have False using seed_net_no_edge [OF wf, of a "order ! j"] s(2) [of "order ! j"] by auto
    then show "a \<in> set (take j order)" ..
  qed
  moreover have "map_of fanin = fanin_spec ctx {}"
    unfolding f by (rule init_all_fanin [OF wf])
  moreover have "n \<in> set order" if "seed_net ctx n" for n
    unfolding o by (rule init_all_seeds_complete [OF wf that])
  moreover have "\<not> ready_net ctx {} n" for n
    by (auto simp: ready_net_def pending_def)
  ultimately show ?thesis using s by (auto simp: kahn_inv_def)
qed




lemma sdiv_mono_pos:
  fixes x y L :: int
  assumes "x \<le> y" "0 < L"
  shows "x sdiv L \<le> y sdiv L"
proof -
  have L: "sgn L = 1" "\<bar>L\<bar> = L" using assms(2) by simp_all
  consider "0 \<le> x" | "x < 0" "0 \<le> y" | "y < 0" using assms(1) by linarith
  then show ?thesis
  proof cases
    case 1
    then have "0 \<le> y" using assms(1) by simp
    then show ?thesis
      using 1 assms by (simp add: signed_divide_int_def L sgn_if zdiv_mono1 pos_imp_zdiv_nonneg_iff)
  next
    case 2
    have "x sdiv L \<le> 0"
      using 2(1) assms(2) by (simp add: signed_divide_int_def L sgn_if pos_imp_zdiv_nonneg_iff)
    moreover have "0 \<le> y sdiv L"
      using 2(2) assms(2) by (simp add: signed_divide_int_def L sgn_if pos_imp_zdiv_nonneg_iff)
    ultimately show ?thesis by simp
  next
    case 3
    then have x: "x < 0" using assms(1) by simp
    have "(- y) div L \<le> (- x) div L"
      using assms by (simp add: zdiv_mono1)
    then show ?thesis
      using 3 x assms(2) by (simp add: signed_divide_int_def L sgn_if)
  qed
qed

lemma tighten_other: "m \<noteq> net \<Longrightarrow> tighten net v nd m = nd m"
  by (simp add: tighten_def split: option.splits)

lemma backward_port_other:
  "backward_port ctx net L dl ov kp (usr, nd) = Inr (usr', nd') \<Longrightarrow> m \<noteq> net \<Longrightarrow> nd' m = nd m"
  by (auto simp: backward_port_def Let_def tighten_other split: prod.splits if_splits option.splits)

lemma backward_ports_other:
  "foldM (backward_port ctx net L dl ov) ps (usr, nd) = Inr (usr', nd') \<Longrightarrow> m \<noteq> net \<Longrightarrow>
   nd' m = nd m"
proof (induction ps arbitrary: usr nd)
  case Nil
  then show ?case by simp
next
  case (Cons kp ps)
  from Cons.prems(1) obtain usr1 nd1 where
    1: "backward_port ctx net L dl ov kp (usr, nd) = Inr (usr1, nd1)" and
    2: "foldM (backward_port ctx net L dl ov) ps (usr1, nd1) = Inr (usr', nd')"
    by (auto split: sum.splits)
  show ?case
    using Cons.IH [OF 2 Cons.prems(2)] backward_port_other [OF 1 Cons.prems(2)] by simp
qed

lemma backward_user_other:
  "backward_user ctx net L usr (nd, tm) = Inr (usr', nd', tm') \<Longrightarrow> m \<noteq> net \<Longrightarrow> nd' m = nd m"
  by (auto simp: backward_user_def Let_def tighten_other
           split: if_splits option.splits sum.splits dest: backward_ports_other)

lemma backward_users_other:
  "backward_users ctx net L us (nd, tm) = Inr (us', nd', tm') \<Longrightarrow> m \<noteq> net \<Longrightarrow> nd' m = nd m"
proof (induction us arbitrary: nd tm us')
  case Nil
  then show ?case by simp
next
  case (Cons u us)
  from Cons.prems(1) obtain u' nd1 tm1 us1 where
    1: "backward_user ctx net L u (nd, tm) = Inr (u', nd1, tm1)" and
    2: "backward_users ctx net L us (nd1, tm1) = Inr (us1, nd', tm')"
    by (auto split: sum.splits)
  show ?case
    using Cons.IH [OF 2 Cons.prems(2)] backward_user_other [OF 1 Cons.prems(2)] by simp
qed

lemma backward_net_other:
  "backward_net n (c, nd, tm) = Inr (c', nd', tm') \<Longrightarrow> m \<noteq> n \<Longrightarrow> nd' m = nd m"
  by (auto simp: backward_net_def split: option.splits sum.splits dest: backward_users_other)

lemma backward_pass_other:
  "foldM backward_net ns (c, nd, tm) = Inr (c', nd', tm') \<Longrightarrow> m \<notin> set ns \<Longrightarrow> nd' m = nd m"
proof (induction ns arbitrary: c nd tm)
  case Nil
  then show ?case by simp
next
  case (Cons n ns)
  from Cons.prems(1) obtain c1 nd1 tm1 where
    1: "backward_net n (c, nd, tm) = Inr (c1, nd1, tm1)" and
    2: "foldM backward_net ns (c1, nd1, tm1) = Inr (c', nd', tm')"
    by (auto split: sum.splits)
  have "m \<noteq> n" "m \<notin> set ns" using Cons.prems(2) by auto
  then show ?case
    using Cons.IH [OF 2] backward_net_other [OF 1] by simp
qed

lemma nd_le_mrb_get:
  "nd_le nd nd' \<Longrightarrow>
   min_remaining_budget (net_data_get nd' n) \<le> min_remaining_budget (net_data_get nd n)"
  unfolding nd_le_def net_data_get_def
  by (erule allE [of _ n]) (auto split: option.splits)

lemma budget_share_nd_le: "nd_le nd nd' \<Longrightarrow> budget_share ctx nd' = budget_share ctx nd"
  by (intro ext) (simp add: budget_share_def nd_le_max_path_length)

lemma terminus_remaining_nd_le:
  "nd_le nd nd' \<Longrightarrow> terminus_remaining ctx nd' = terminus_remaining ctx nd"
  by (intro ext)
     (simp add: terminus_remaining_def budget_share_nd_le terminus_path_budget_nd_le)

lemma budget_share_net_at [simp]: "budget_share (c\<lparr>net_at := g\<rparr>) = budget_share c"
  by (intro ext) (simp add: budget_share_def)

lemma terminus_remaining_net_at [simp]:
  "terminus_remaining (c\<lparr>net_at := g\<rparr>) = terminus_remaining c"
  by (intro ext) (simp add: terminus_remaining_def)

lemma backward_user_clocked_bound:
  assumes "backward_user ctx net L usr (nd, tm) = Inr (usr', nd', tm')"
    and "getPortClock ctx (cell usr) (port usr) \<noteq> 0"
    and "L = int (max_path_length (net_data_get nd net)) + 1"
  shows "min_remaining_budget (net_data_get nd' net)
         \<le> terminus_remaining ctx nd net (cell usr) (port usr)"
  using assms
  by (auto simp: backward_user_def Let_def tighten_def terminus_remaining_def
                 terminus_path_budget_def budget_share_def net_data_get_def
           split: option.splits)

lemma backward_users_clocked_bound:
  "backward_users ctx net L us (nd, tm) = Inr (us', nd', tm') \<Longrightarrow> u \<in> set us \<Longrightarrow>
   getPortClock ctx (cell u) (port u) \<noteq> 0 \<Longrightarrow>
   L = int (max_path_length (net_data_get nd net)) + 1 \<Longrightarrow>
   min_remaining_budget (net_data_get nd' net) \<le> terminus_remaining ctx nd net (cell u) (port u)"
proof (induction us arbitrary: nd tm us')
  case Nil
  then show ?case by simp
next
  case (Cons x us)
  from Cons.prems(1) obtain x' nd1 tm1 us1 where
    1: "backward_user ctx net L x (nd, tm) = Inr (x', nd1, tm1)" and
    2: "backward_users ctx net L us (nd1, tm1) = Inr (us1, nd', tm')"
    by (auto split: sum.splits)
  have le1: "nd_le nd nd1" by (rule backward_user_nd_le [OF 1])
  have le2: "nd_le nd1 nd'" by (rule backward_users_nd_le [OF 2])
  show ?case
  proof (cases "u = x")
    case True
    have "min_remaining_budget (net_data_get nd1 net)
          \<le> terminus_remaining ctx nd net (cell u) (port u)"
      using backward_user_clocked_bound [OF 1] Cons.prems(3,4) True by simp
    with nd_le_mrb_get [OF le2, of net] show ?thesis by simp
  next
    case False
    then have u: "u \<in> set us" using Cons.prems(2) by simp
    have L: "L = int (max_path_length (net_data_get nd1 net)) + 1"
      using Cons.prems(4) by (simp add: nd_le_max_path_length [OF le1])
    from Cons.IH [OF 2 u Cons.prems(3) L] show ?thesis
      by (simp add: terminus_remaining_nd_le [OF le1])
  qed
qed

lemma backward_net_clocked_bound:
  assumes "backward_net n (c, nd, tm) = Inr (c', nd', tm')"
    and "(cc, p) \<in> set (sinks c n)" and "getPortClock c cc p \<noteq> 0"
  shows "min_remaining_budget (net_data_get nd' n) \<le> terminus_remaining c nd n cc p"
proof -
  from assms(1) obtain d us' where
    d: "nd n = Some d" and
    us: "backward_users c n (int (max_path_length d + 1)) (users (net_at c n)) (nd, tm)
           = Inr (us', nd', tm')"
    by (auto simp: backward_net_def split: option.splits sum.splits)
  from assms(2) obtain u where u: "u \<in> set (users (net_at c n))" "cell u = cc" "port u = p"
    by (auto simp: sinks_def)
  have L: "int (max_path_length d + 1) = int (max_path_length (net_data_get nd n)) + 1"
    using d by (simp add: net_data_get_def)
  from backward_users_clocked_bound [OF us u(1) _ L] assms(3) u show ?thesis by simp
qed

lemma backward_pass_clocked_bound:
  "foldM backward_net ns (c, nd, tm) = Inr (c', nd', tm') \<Longrightarrow> n \<in> set ns \<Longrightarrow>
   (cc, p) \<in> set (sinks c n) \<Longrightarrow> getPortClock c cc p \<noteq> 0 \<Longrightarrow>
   min_remaining_budget (net_data_get nd' n) \<le> terminus_remaining c nd n cc p"
proof (induction ns arbitrary: c nd tm)
  case Nil
  then show ?case by simp
next
  case (Cons x ns)
  from Cons.prems(1) obtain c1 nd1 tm1 where
    1: "backward_net x (c, nd, tm) = Inr (c1, nd1, tm1)" and
    2: "foldM backward_net ns (c1, nd1, tm1) = Inr (c', nd', tm')"
    by (auto split: sum.splits)
  note p1 = backward_net_props [OF 1]
  note p2 = backward_pass_props [OF 2]
  show ?case
  proof (cases "n \<in> set ns")
    case True
    from p1(1) obtain g where c1: "c1 = c\<lparr>net_at := g\<rparr>" and sk: "sinks c1 n = sinks c n"
      unfolding same_netlist_def by blast
    have s: "(cc, p) \<in> set (sinks c1 n)" using Cons.prems(3) sk by simp
    have clk: "getPortClock c1 cc p \<noteq> 0" using Cons.prems(4) by (simp add: c1)
    from Cons.IH [OF 2 True s clk]
    show ?thesis by (simp add: c1 terminus_remaining_nd_le [OF p1(2)])
  next
    case False
    then have "n = x" using Cons.prems(2) by simp
    then have "min_remaining_budget (net_data_get nd1 n) \<le> terminus_remaining c nd n cc p"
      using backward_net_clocked_bound [OF 1] Cons.prems(3,4) by simp
    moreover have "nd_le nd1 nd'" using p2 by blast
    ultimately show ?thesis using nd_le_mrb_get [of nd1 nd' n] by simp
  qed
qed

lemma backward_port_budget:
  assumes "backward_port ctx net L dl ov (k, q) (usr, nd) = Inr (usr', nd')"
    and "port_type q = PORT_OUT" "port_net q = Some n"
    and "getCellDelay ctx (cell usr) (port usr) k \<noteq> None"
  shows "budget usr' \<le> dl + (if ov then 0 else min_remaining_budget (net_data_get nd n) sdiv L)"
  using assms
  by (auto simp: backward_port_def Let_def net_data_get_def split: option.splits)

lemma backward_ports_budget:
  "foldM (backward_port ctx net L dl ov) ps (usr, nd) = Inr (usr', nd') \<Longrightarrow>
   (k, q) \<in> set ps \<Longrightarrow> port_type q = PORT_OUT \<Longrightarrow> port_net q = Some n \<Longrightarrow>
   getCellDelay ctx (cell usr) (port usr) k \<noteq> None \<Longrightarrow> n \<noteq> net \<Longrightarrow>
   budget usr' \<le> dl + (if ov then 0 else min_remaining_budget (net_data_get nd n) sdiv L)"
proof (induction ps arbitrary: usr nd)
  case Nil
  then show ?case by simp
next
  case (Cons kp ps)
  from Cons.prems(1) obtain usr1 nd1 where
    1: "backward_port ctx net L dl ov kp (usr, nd) = Inr (usr1, nd1)" and
    2: "foldM (backward_port ctx net L dl ov) ps (usr1, nd1) = Inr (usr', nd')"
    by (auto split: sum.splits)
  note k1 = backward_port_key [OF 1]
  note k2 = backward_ports_key [OF 2]
  show ?case
  proof (cases "kp = (k, q)")
    case True
    from backward_port_budget [OF 1 [unfolded True] Cons.prems(3,4,5)] k2
    show ?thesis by simp
  next
    case False
    then have mem: "(k, q) \<in> set ps" using Cons.prems(2) by simp
    have path: "getCellDelay ctx (cell usr1) (port usr1) k \<noteq> None"
      using Cons.prems(5) k1 by simp
    have "nd1 n = nd n" by (rule backward_port_other [OF 1 Cons.prems(6)])
    then have "net_data_get nd1 n = net_data_get nd n" by (simp add: net_data_get_def)
    with Cons.IH [OF 2 mem Cons.prems(3,4) path Cons.prems(6)] show ?thesis
      by (auto split: if_splits)
  qed
qed

lemma backward_user_budget:
  assumes "backward_user ctx net L usr (nd, tm) = Inr (usr', nd', tm')"
    and "getPortClock ctx (cell usr) (port usr) = 0"
    and "(k, q) \<in> set (cell_ports (cell_at ctx (cell usr)))"
    and "port_type q = PORT_OUT" "port_net q = Some n"
    and "getCellDelay ctx (cell usr) (port usr) k \<noteq> None" and "n \<noteq> net"
  shows "budget usr' \<le> getNetinfoRouteDelay ctx net (cell usr) (port usr)
           + (if getBudgetOverride ctx net (cell usr) (port usr) \<noteq> None then 0
              else min_remaining_budget (net_data_get nd n) sdiv L)"
proof -
  from assms(1,2) have
    "foldM (backward_port ctx net L (getNetinfoRouteDelay ctx net (cell usr) (port usr))
              (getBudgetOverride ctx net (cell usr) (port usr) \<noteq> None))
           (cell_ports (cell_at ctx (cell usr))) (usr, nd) = Inr (usr', nd')"
    by (auto simp: backward_user_def Let_def split: sum.splits)
  from backward_ports_budget [OF this assms(3,4,5,6,7)] show ?thesis .
qed

lemma backward_users_budget:
  "backward_users ctx net L us (nd, tm) = Inr (us', nd', tm') \<Longrightarrow> i < length us \<Longrightarrow>
   getPortClock ctx (cell (us ! i)) (port (us ! i)) = 0 \<Longrightarrow>
   (k, q) \<in> set (cell_ports (cell_at ctx (cell (us ! i)))) \<Longrightarrow>
   port_type q = PORT_OUT \<Longrightarrow> port_net q = Some n \<Longrightarrow>
   getCellDelay ctx (cell (us ! i)) (port (us ! i)) k \<noteq> None \<Longrightarrow> n \<noteq> net \<Longrightarrow>
   budget (us' ! i) \<le> getNetinfoRouteDelay ctx net (cell (us ! i)) (port (us ! i))
           + (if getBudgetOverride ctx net (cell (us ! i)) (port (us ! i)) \<noteq> None then 0
              else min_remaining_budget (net_data_get nd n) sdiv L)"
proof (induction us arbitrary: i nd tm us')
  case Nil
  then show ?case by simp
next
  case (Cons u us)
  from Cons.prems(1) obtain u' nd1 tm1 us1 where
    1: "backward_user ctx net L u (nd, tm) = Inr (u', nd1, tm1)" and
    2: "backward_users ctx net L us (nd1, tm1) = Inr (us1, nd', tm')" and
    3: "us' = u' # us1"
    by (auto split: sum.splits)
  show ?case
  proof (cases i)
    case 0
    with backward_user_budget [OF 1, of k q n] Cons.prems 3 show ?thesis by simp
  next
    case (Suc j)
    have "nd1 n = nd n" by (rule backward_user_other [OF 1 Cons.prems(8)])
    then have eq: "net_data_get nd1 n = net_data_get nd n" by (simp add: net_data_get_def)
    from Cons.prems Suc have j: "j < length us"
      "getPortClock ctx (cell (us ! j)) (port (us ! j)) = 0"
      "(k, q) \<in> set (cell_ports (cell_at ctx (cell (us ! j))))"
      "getCellDelay ctx (cell (us ! j)) (port (us ! j)) k \<noteq> None"
      by simp_all
    from Cons.IH [OF 2 j(1,2,3) Cons.prems(5,6) j(4) Cons.prems(8)] Suc 3 show ?thesis
      by (auto simp: eq split: if_splits)
  qed
qed

lemma backward_users_budget_le:
  "backward_users ctx net L us st = Inr (us', st') \<Longrightarrow> i < length us \<Longrightarrow>
   budget (us' ! i) \<le> budget (us ! i)"
proof -
  assume run: "backward_users ctx net L us st = Inr (us', st')" and i: "i < length us"
  from backward_users_nth [OF run i] obtain nd1 tm1 nd2 tm2 where
    "backward_user ctx net L (us ! i) (nd1, tm1) = Inr (us' ! i, nd2, tm2)" by blast
  from backward_user_key [OF this] show ?thesis by simp
qed

lemma same_netlist_users:
  assumes "same_netlist c c'"
  shows "length (users (net_at c' y)) = length (users (net_at c y))"
    and "i < length (users (net_at c y)) \<Longrightarrow>
         cell (users (net_at c' y) ! i) = cell (users (net_at c y) ! i)
         \<and> port (users (net_at c' y) ! i) = port (users (net_at c y) ! i)"
proof -
  from assms have sk: "sinks c' y = sinks c y" unfolding same_netlist_def by blast
  then show len: "length (users (net_at c' y)) = length (users (net_at c y))"
    unfolding sinks_def by (metis length_map)
  assume i: "i < length (users (net_at c y))"
  then have "sinks c' y ! i = (cell (users (net_at c' y) ! i), port (users (net_at c' y) ! i))"
    "sinks c y ! i = (cell (users (net_at c y) ! i), port (users (net_at c y) ! i))"
    using len by (simp_all add: sinks_def)
  with sk show "cell (users (net_at c' y) ! i) = cell (users (net_at c y) ! i)
         \<and> port (users (net_at c' y) ! i) = port (users (net_at c y) ! i)"
    by simp
qed

lemma backward_net_budget_le:
  assumes "backward_net x (c, nd, tm) = Inr (c', nd', tm')" and "i < length (users (net_at c y))"
  shows "budget (users (net_at c' y) ! i) \<le> budget (users (net_at c y) ! i)"
proof -
  from assms(1) obtain d us' where
    d: "nd x = Some d" and
    us: "backward_users c x (int (max_path_length d + 1)) (users (net_at c x)) (nd, tm)
           = Inr (us', nd', tm')" and
    c': "c' = c\<lparr>net_at := (net_at c)(x := (net_at c x)\<lparr>users := us'\<rparr>)\<rparr>"
    by (auto simp: backward_net_def split: option.splits sum.splits)
  show ?thesis
  proof (cases "y = x")
    case True
    then show ?thesis
      using backward_users_budget_le [OF us, of i] assms(2) by (simp add: c')
  next
    case False
    then show ?thesis by (simp add: c')
  qed
qed

lemma backward_pass_budget_le:
  "foldM backward_net ns (c, nd, tm) = Inr (c', nd', tm') \<Longrightarrow> i < length (users (net_at c y)) \<Longrightarrow>
   budget (users (net_at c' y) ! i) \<le> budget (users (net_at c y) ! i)"
proof (induction ns arbitrary: c nd tm)
  case Nil
  then show ?case by simp
next
  case (Cons x ns)
  from Cons.prems(1) obtain c1 nd1 tm1 where
    1: "backward_net x (c, nd, tm) = Inr (c1, nd1, tm1)" and
    2: "foldM backward_net ns (c1, nd1, tm1) = Inr (c', nd', tm')"
    by (auto split: sum.splits)
  note p1 = backward_net_props [OF 1]
  have i1: "i < length (users (net_at c1 y))"
    using Cons.prems(2) same_netlist_users(1) [OF p1(1), of y] by simp
  from Cons.IH [OF 2 i1] backward_net_budget_le [OF 1 Cons.prems(2)] show ?case by simp
qed

lemma backward_net_budget:
  assumes run: "backward_net a (c, nd, tm) = Inr (c', nd', tm')"
    and i: "i < length (users (net_at c a))" and u: "u = users (net_at c a) ! i"
    and unclk: "getPortClock c (cell u) (port u) = 0"
    and kq: "(k, q) \<in> set (cell_ports (cell_at c (cell u)))" "port_type q = PORT_OUT"
      "port_net q = Some n" "getCellDelay c (cell u) (port u) k \<noteq> None"
    and ne: "n \<noteq> a"
  shows "budget (users (net_at c' a) ! i)
         \<le> getNetinfoRouteDelay c a (cell u) (port u)
            + budget_share c nd a (cell u) (port u) (min_remaining_budget (net_data_get nd n))"
proof -
  from run obtain d us' where
    d: "nd a = Some d" and
    us: "backward_users c a (int (max_path_length d + 1)) (users (net_at c a)) (nd, tm)
           = Inr (us', nd', tm')" and
    c': "c' = c\<lparr>net_at := (net_at c)(a := (net_at c a)\<lparr>users := us'\<rparr>)\<rparr>"
    by (auto simp: backward_net_def split: option.splits sum.splits)
  have gd: "net_data_get nd a = d"
    using d by (simp add: net_data_get_def)
  from backward_users_budget [OF us i, of k q n] unclk kq ne u
  show ?thesis by (auto simp: c' budget_share_def gd add.commute split: if_splits)
qed

lemma backward_pass_upstream:
  assumes run: "foldM backward_net (pre @ a # post) (c, nd, tm) = Inr (c', nd', tm')"
    and n: "n \<notin> set (a # post)"
    and i: "i < length (users (net_at c a))" and u: "u = users (net_at c a) ! i"
    and unclk: "getPortClock c (cell u) (port u) = 0"
    and kq: "(k, q) \<in> set (cell_ports (cell_at c (cell u)))" "port_type q = PORT_OUT"
      "port_net q = Some n" "getCellDelay c (cell u) (port u) k \<noteq> None"
  shows "budget (users (net_at c' a) ! i)
         \<le> getNetinfoRouteDelay c a (cell u) (port u)
            + budget_share c nd' a (cell u) (port u) (min_remaining_budget (net_data_get nd' n))"
proof -
  from run obtain c1 nd1 tm1 c2 nd2 tm2 where
    1: "foldM backward_net pre (c, nd, tm) = Inr (c1, nd1, tm1)" and
    2: "backward_net a (c1, nd1, tm1) = Inr (c2, nd2, tm2)" and
    3: "foldM backward_net post (c2, nd2, tm2) = Inr (c', nd', tm')"
    by (auto simp: foldM_append split: sum.splits)
  note p1 = backward_pass_props [OF 1]
  note p2 = backward_net_props [OF 2]
  note p3 = backward_pass_props [OF 3]
  from p1 have s1: "same_netlist c c1" by blast
  then obtain g where c1: "c1 = c\<lparr>net_at := g\<rparr>" unfolding same_netlist_def by blast
  have i1: "i < length (users (net_at c1 a))"
    using i same_netlist_users(1) [OF s1, of a] by simp
  let ?u1 = "users (net_at c1 a) ! i"
  have key: "cell ?u1 = cell u" "port ?u1 = port u"
    using same_netlist_users(2) [OF s1 i] u by simp_all
  have ne: "n \<noteq> a" using n by auto
  have b2: "budget (users (net_at c2 a) ! i)
         \<le> getNetinfoRouteDelay c a (cell u) (port u)
            + budget_share c nd1 a (cell u) (port u) (min_remaining_budget (net_data_get nd1 n))"
    using backward_net_budget [OF 2 i1 refl, of k q n] unclk kq ne
    unfolding key by (simp add: c1)
  have i2: "i < length (users (net_at c2 a))"
    using i1 same_netlist_users(1) [OF p2(1), of a] by simp
  have b3: "budget (users (net_at c' a) ! i) \<le> budget (users (net_at c2 a) ! i)"
    by (rule backward_pass_budget_le [OF 3 i2])
  have "nd2 n = nd1 n" by (rule backward_net_other [OF 2 ne])
  moreover have "nd' n = nd2 n" using backward_pass_other [OF 3] n by simp
  ultimately have eq: "net_data_get nd' n = net_data_get nd1 n" by (simp add: net_data_get_def)
  have le: "nd_le nd1 nd'" using p2(2) p3 by (blast intro: nd_le_trans)
  show ?thesis
    using b2 b3 by (simp add: eq budget_share_nd_le [OF le])
qed

lemma budget_share_mono:
  "x \<le> y \<Longrightarrow> budget_share ctx nd a c p x \<le> budget_share ctx nd a c p y"
  by (simp add: budget_share_def sdiv_mono_pos)

lemma kahn_loop_complete:
  "wf_netlist ctx \<Longrightarrow> kahn_inv ctx dn F st \<Longrightarrow> F = (\<Union>n\<in>set dn. events_of_net ctx n) \<Longrightarrow>
   \<exists>order' fanin'. kahn_loop ctx st = Inr (order', fanin')
      \<and> kahn_inv ctx order' (\<Union>n\<in>set order'. events_of_net ctx n) (order', [], fanin')"
proof (induction ctx st arbitrary: dn F rule: kahn_loop.induct)
  case (1 ctx order fanin)
  then have "order = dn" by (simp add: kahn_inv_def)
  then show ?case using "1.prems"(2,3) by auto
next
  case (2 ctx order N queue fanin)
  note wf = "2.prems"(1) and inv = "2.prems"(2) and F = "2.prems"(3)
  from inv have
    ord: "order = dn @ N # queue" and dist: "distinct order" and sub: "set order \<subseteq> set (nets ctx)"
    by (auto simp: kahn_inv_def)
  let ?done = "dn @ [N]"
  have inv': "kahn_inv ctx ?done F (order, queue, fanin)"
    using inv by (auto simp: kahn_inv_def)
  have Nn: "N \<in> set (nets ctx)" using ord sub by auto
  have fresh: "events_of_net ctx N \<inter> F = {}"
  proof -
    have "events_of_net ctx N \<inter> events_of_net ctx n = {}" if "n \<in> set dn" for n
    proof -
      have "n \<noteq> N" using that dist ord by auto
      moreover have "n \<in> set (nets ctx)" using that ord sub by auto
      ultimately show ?thesis using events_of_net_disjoint [OF wf Nn] by blast
    qed
    then show ?thesis unfolding F by blast
  qed
  from kahn_net_step [OF wf inv' _ fresh] obtain st' where
    run: "kahn_net ctx N (order, queue, fanin) = Inr st'" and
    inv'': "kahn_inv ctx ?done (F \<union> events_of_net ctx N) st'"
    by auto
  have F': "F \<union> events_of_net ctx N = (\<Union>n\<in>set ?done. events_of_net ctx n)"
    unfolding F by auto
  from "2.IH" [OF run wf inv'' F'] show ?case using run by simp
qed

lemma linearize_complete:
  assumes wf: "wf_netlist ctx"
  shows "\<exists>order fanin nd. linearize ctx = Inr (order, fanin, nd)
           \<and> kahn_inv ctx order (\<Union>n\<in>set order. events_of_net ctx n) (order, [], fanin)"
proof -
  obtain order0 fanin0 nd0 where init: "init_all ctx = (order0, fanin0, nd0)"
    by (cases "init_all ctx") auto
  from kahn_loop_complete [OF wf init_inv [OF wf init]] obtain order fanin where
    "kahn_loop ctx (order0, order0, fanin0) = Inr (order, fanin)"
    "kahn_inv ctx order (\<Union>n\<in>set order. events_of_net ctx n) (order, [], fanin)"
    by auto
  then show ?thesis by (auto simp: linearize_def init)
qed

lemma pending_events_empty:
  assumes o: "(k, p) \<in> set (output_ports (cell_at ctx c))"
  shows "pending ctx (\<Union>a\<in>S. events_of_net ctx a) c k = {} \<longleftrightarrow>
         (\<forall>i\<in>counted ctx c k. getPortClock ctx c i = 0 \<and> (\<exists>a\<in>S. (c, i) \<in> set (sinks ctx a)))"
proof
  assume e: "pending ctx (\<Union>a\<in>S. events_of_net ctx a) c k = {}"
  show "\<forall>i\<in>counted ctx c k. getPortClock ctx c i = 0 \<and> (\<exists>a\<in>S. (c, i) \<in> set (sinks ctx a))"
  proof
    fix i assume "i \<in> counted ctx c k"
    with e obtain a where a: "a \<in> S" "(c, i, k) \<in> events_of_net ctx a"
      by (auto simp: pending_def)
    from events_of_net_sink [OF a(2)] a(1)
    show "getPortClock ctx c i = 0 \<and> (\<exists>a\<in>S. (c, i) \<in> set (sinks ctx a))" by blast
  qed
next
  assume r: "\<forall>i\<in>counted ctx c k. getPortClock ctx c i = 0 \<and> (\<exists>a\<in>S. (c, i) \<in> set (sinks ctx a))"
  have kp: "(k, p) \<in> set (cell_ports (cell_at ctx c))"
    and pt: "port_type p = PORT_OUT" and pn: "port_net p \<noteq> None"
    using o by (auto simp: output_ports_def)
  have "(c, i, k) \<in> (\<Union>a\<in>S. events_of_net ctx a)" if i: "i \<in> counted ctx c k" for i
  proof -
    from r i obtain a where a: "a \<in> S" "(c, i) \<in> set (sinks ctx a)" "getPortClock ctx c i = 0"
      by blast
    have "fires ctx c i (k, p)"
      using i pt pn by (simp add: fires_def counted_def)
    from events_of_net_intro [OF a(2,3) kp this] a(1) show ?thesis by blast
  qed
  then show "pending ctx (\<Union>a\<in>S. events_of_net ctx a) c k = {}"
    by (auto simp: pending_def)
qed

lemma reachable_in_order:
  assumes inv: "kahn_inv ctx order (\<Union>n\<in>set order. events_of_net ctx n) (order, [], fanin)"
    and r: "reachable ctx n"
  shows "n \<in> set order"
  using r
proof (induction rule: reachable.induct)
  case (seed n)
  then show ?case using inv by (simp add: kahn_inv_def)
next
  case (fed c k p n)
  have "\<forall>i\<in>counted ctx c k. getPortClock ctx c i = 0
          \<and> (\<exists>a\<in>set order. (c, i) \<in> set (sinks ctx a))"
    using fed.IH by blast
  then have "pending ctx (\<Union>a\<in>set order. events_of_net ctx a) c k = {}"
    by (simp add: pending_events_empty [OF fed.hyps(2)])
  then have "ready_net ctx (\<Union>a\<in>set order. events_of_net ctx a) n"
    unfolding ready_net_def using fed.hyps by fast
  then show ?case using inv by (simp add: kahn_inv_def)
qed

lemma order_reachable:
  assumes wf: "wf_netlist ctx"
    and inv: "kahn_inv ctx order (\<Union>n\<in>set order. events_of_net ctx n) (order, [], fanin)"
  shows "j < length order \<Longrightarrow> reachable ctx (order ! j)"
proof (induction j rule: less_induct)
  case (less j)
  let ?F = "\<Union>n\<in>set order. events_of_net ctx n"
  from inv have k5: "\<forall>n\<in>set order. seed_net ctx n \<or> ready_net ctx ?F n"
    and prec: "precedes_ok ctx order" and sub: "set order \<subseteq> set (nets ctx)"
    by (auto simp: kahn_inv_def)
  let ?n = "order ! j"
  have "seed_net ctx ?n \<or> ready_net ctx ?F ?n" using k5 less.prems by simp
  then show ?case
  proof
    assume "seed_net ctx ?n"
    then show ?thesis by (rule reachable.seed)
  next
    assume "ready_net ctx ?F ?n"
    then obtain c k p where c: "c \<in> set (cells ctx)"
      and o: "(k, p) \<in> set (output_ports (cell_at ctx c))" and pn: "port_net p = Some ?n"
      and unclk: "getPortClock ctx c k = 0" and cnt: "counted ctx c k \<noteq> {}"
      and pe: "pending ctx ?F c k = {}"
      by (auto simp: ready_net_def)
    have kp: "(k, p) \<in> set (cell_ports (cell_at ctx c))" "port_type p = PORT_OUT"
      using o by (auto simp: output_ports_def)
    have "getPortClock ctx c i = 0
          \<and> (\<exists>a. reachable ctx a \<and> a \<in> set (nets ctx) \<and> (c, i) \<in> set (sinks ctx a))"
      if i: "i \<in> counted ctx c k" for i
    proof -
      from pe [unfolded pending_events_empty [OF o]] i obtain a where
        iu: "getPortClock ctx c i = 0" and a: "a \<in> set order" "(c, i) \<in> set (sinks ctx a)"
        by blast
      have an: "a \<in> set (nets ctx)" using a(1) sub by auto
      from i obtain d where d: "getCellDelay ctx c i k = Some d" by (auto simp: counted_def)
      have "d \<in> comb_targets ctx c i (cell_ports (cell_at ctx c)) ?n"
        unfolding comb_targets_def using kp pn d by blast
      then have "comb_edge ctx a ?n"
        unfolding comb_edge_def using a(2) iu by blast
      then have "a \<in> set (take j order)"
        using prec less.prems an by (auto simp: precedes_ok_def)
      then obtain j' where j': "j' < length (take j order)" "take j order ! j' = a"
        by (auto simp: in_set_conv_nth)
      then have "j' < j" "order ! j' = a" by auto
      with less.IH [of j'] less.prems have "reachable ctx a" by simp
      with iu an a(2) show ?thesis by blast
    qed
    then show ?thesis
      using reachable.fed [OF c o pn unclk cnt] by blast
  qed
qed

lemma wf_ex_fanout: "wf_netlist ex_fanout"
  by (auto simp: wf_netlist_def ex_fanout_defs sinks_def output_ports_def input_ports_def seed_port_def)

lemma wf_ex_const: "wf_netlist ex_const"
  by (auto simp: wf_netlist_def ex_const_def ex_defs sinks_def output_ports_def input_ports_def
                 seed_port_def)

section \<open>Analysis mode and the netlist\<close>

text \<open>
  Claim C1: in analysis mode (\<^verbatim>\<open>timing_analysis\<close>) the pass is read-only with respect to the
  netlist, every sink's budget after the pass being the one before it.

  The compiled branch of \<^verbatim>\<open>walk_paths\<close> assigns \<^verbatim>\<open>usr.budget\<close> at lines 263 and 281 without
  looking at the member \<^verbatim>\<open>update\<close>, which \<^verbatim>\<open>timing_analysis\<close> sets to false.  On the example
  the analysis lowers both budgets from \<open>9000\<close> to \<open>3850\<close> and \<open>3650\<close>.
\<close>

theorem timing_analysis_writes_budgets:
  "\<exists>ctx' r. timing_analysis ex_pipeline False False = Inr (ctx', r)
     \<and> map budget (users (net_at ex_pipeline 10)) = [9000]
     \<and> map budget (users (net_at ex_pipeline 11)) = [9000]
     \<and> map budget (users (net_at ctx' 10)) = [3850]
     \<and> map budget (users (net_at ctx' 11)) = [3650]"
  by (simp add: model_defs ex_defs)

section \<open>Route delays in budgeting mode\<close>

text \<open>
  Claim C3: in budgeting mode the realized route delays are used only when
  \<^verbatim>\<open>slack_redist_iter\<close> says that routing has happened; otherwise every route delay counts
  as zero.

  \<^verbatim>\<open>assign_budget\<close> passes \<^verbatim>\<open>slack_redist_iter > 0\<close> as \<^verbatim>\<open>net_delays\<close>, but the compiled branch of
  \<^verbatim>\<open>walk_paths\<close> calls \<^verbatim>\<open>getNetinfoRouteDelay\<close> at lines 228 and 257 whatever the flag says.
  On the example, with \<^verbatim>\<open>slack_redist_iter = 0\<close>, the budgets are \<open>3850\<close> and \<open>3650\<close>; with
  all route delays zero they would both be \<open>3750\<close>.
\<close>

theorem assign_budget_uses_route_delays_before_routing:
  "slack_redist_iter ex_pipeline = 0
   \<and> (\<exists>ctx'. assign_budget ex_pipeline = Inr ctx'
          \<and> map budget (users (net_at ctx' 10)) = [3850]
          \<and> map budget (users (net_at ctx' 11)) = [3650])
   \<and> (\<exists>ctx'. assign_budget (ex_pipeline\<lparr>getNetinfoRouteDelay := \<lambda>n c p. 0\<rparr>) = Inr ctx'
          \<and> map budget (users (net_at ctx' 10)) = [3750]
          \<and> map budget (users (net_at ctx' 11)) = [3750])"
  by (simp add: model_defs ex_defs)

section \<open>The critical path\<close>

text \<open>
  Claim C4: when the critical path is requested, a design with at least one timing path
  yields a non-empty captured path.

  Only \<^verbatim>\<open>follow_user_port\<close> writes \<^verbatim>\<open>*crit_path\<close>, and nothing that is compiled calls it.  The
  example has the timing path from register \<open>1\<close> to register \<open>3\<close> (slack \<open>7100\<close>), and
  \<^verbatim>\<open>timing_analysis\<close> reports that the design contains no timing paths.
\<close>

theorem timing_analysis_reports_no_path:
  "\<exists>ctx' r. timing_analysis ex_pipeline False True = Inr (ctx', r)
     \<and> report_min_slack r = 7100 \<and> report_path r = NoTimingPaths"
  by (simp add: model_defs ex_defs)

section \<open>The slack histogram\<close>

text \<open>
  Claim C9: for every non-empty set of slack samples the histogram is rendered safely: the
  bin width is a nonzero divisor, and every sample's bin index lies within the bins.

  The bin width is \<^verbatim>\<open>(max_slack - min_slack) / num_bins\<close> with \<open>20\<close> bins, which is \<open>0\<close> when the
  samples span less than \<open>20\<close>: a single sample, and the samples \<open>1, 1, 2, 5, 5, 5, 9\<close>, divide
  by zero at line 408.  Samples \<open>0\<close> and \<open>39\<close> give the width \<open>1\<close> and the index \<open>39\<close> into \<open>21\<close> bins.
\<close>

theorem histogram_render_fails:
  "histogram_render [(5, 1)] = Inl DivisionByZero
   \<and> histogram_render [(1, 2), (2, 1), (5, 3), (9, 1)] = Inl DivisionByZero
   \<and> histogram_render [(0, 1), (39, 1)] = Inl IndexOutOfBounds"
  by (simp add: model_defs)

section \<open>The global minimum slack\<close>




section \<open>Clocked sinks and the remaining budget of their net\<close>

text \<open>
  Claim C10: in the backward pass a clocked sink, too, tightens the
  \<^verbatim>\<open>min_remaining_budget\<close> of its own net, to the minimum of its current value and
  \<^verbatim>\<open>path_budget - budget_share\<close>; so when a net feeds both a register and further
  combinational logic, the remaining slack of the register path constrains the budgets
  distributed to the predecessors of the net.

  The theorem has the step and the whole pass.  The step of a clocked sink replaces the
  \<^verbatim>\<open>min_remaining_budget\<close> of its net by the minimum of its value and
  \<^verbatim>\<open>path_budget - budget_share\<close>, in any state.  For a net \<open>n\<close> of the linear order and a clocked sink
  \<open>(c, p)\<close> of it, the \<^verbatim>\<open>min_remaining_budget\<close> of \<open>n\<close> at the end of the pass is at most what the
  terminus leaves of its path budget; and every unclocked sink with a combinational path
  into \<open>n\<close>, on a net that stands in the order before the first occurrence of \<open>n\<close>, ends
  with a budget of at most its route delay plus its share of that remainder.
\<close>

theorem clocked_sink_constrains_upstream:
  assumes walk: "walk_paths tm ctx = Inr (ms, tm', ctx', nd)"
    and lin: "linearize ctx = Inr (order, fanin, nd0)"
    and n: "n \<in> set order"
    and s: "(c, p) \<in> set (sinks ctx n)" and clk: "getPortClock ctx c p \<noteq> 0"
  shows "(\<forall>usr len nds tms d. cell usr = c \<and> port usr = p \<and> nds n = Some d \<longrightarrow>
            (let path_budget = clk_period ctx - (max_arrival d + getNetinfoRouteDelay ctx n c p);
                 share = (if getBudgetOverride ctx n c p \<noteq> None then 0 else path_budget sdiv len)
             in \<exists>usr' tms'. backward_user ctx n len usr (nds, tms) =
                  Inr (usr',
                       nds(n \<mapsto> d\<lparr>min_remaining_budget :=
                                       min (min_remaining_budget d) (path_budget - share)\<rparr>),
                       tms')))
         \<and> min_remaining_budget (net_data_get nd n) \<le> terminus_remaining ctx nd n c p
         \<and> (\<forall>i m. i < length order \<and> n \<notin> set (take (Suc i) order) \<and> feeds ctx (order ! i) m n \<longrightarrow>
                budget (users (net_at ctx' (order ! i)) ! m)
                \<le> (let u = users (net_at ctx (order ! i)) ! m
                   in getNetinfoRouteDelay ctx (order ! i) (cell u) (port u)
                      + budget_share ctx nd (order ! i) (cell u) (port u)
                          (terminus_remaining ctx nd n c p)))"
proof -
  from walk lin obtain nd1 where
    bw: "foldM backward_net (rev order) (ctx, nd1, tm) = Inr (ctx', nd, tm')"
    by (auto simp: walk_paths_def backward_pass_def split: sum.splits)
  note props = backward_pass_props [OF bw]
  have le: "nd_le nd1 nd" using props by blast
  have n': "n \<in> set (rev order)" using n by simp
  have 0: "let path_budget = clk_period ctx - (max_arrival d + getNetinfoRouteDelay ctx n c p);
               share = (if getBudgetOverride ctx n c p \<noteq> None then 0 else path_budget sdiv len)
           in \<exists>usr' tms'. backward_user ctx n len usr (nds, tms) =
                Inr (usr',
                     nds(n \<mapsto> d\<lparr>min_remaining_budget :=
                                     min (min_remaining_budget d) (path_budget - share)\<rparr>),
                     tms')"
    if "cell usr = c" "port usr = p" "nds n = Some d" for usr len nds tms d
    using that clk by (auto simp: backward_user_def Let_def tighten_def)
  have 1: "min_remaining_budget (net_data_get nd n) \<le> terminus_remaining ctx nd n c p"
    using backward_pass_clocked_bound [OF bw n' s clk]
    by (simp add: terminus_remaining_nd_le [OF le])
  have 2: "budget (users (net_at ctx' (order ! i)) ! m)
           \<le> (let u = users (net_at ctx (order ! i)) ! m
              in getNetinfoRouteDelay ctx (order ! i) (cell u) (port u)
                 + budget_share ctx nd (order ! i) (cell u) (port u)
                     (terminus_remaining ctx nd n c p))"
    if i: "i < length order" and first: "n \<notin> set (take (Suc i) order)"
      and f: "feeds ctx (order ! i) m n" for i m
  proof -
    let ?a = "order ! i"
    let ?u = "users (net_at ctx ?a) ! m"
    from f have m: "m < length (users (net_at ctx ?a))"
      and unclk: "getPortClock ctx (cell ?u) (port ?u) = 0"
      and ct: "comb_targets ctx (cell ?u) (port ?u) (cell_ports (cell_at ctx (cell ?u))) n \<noteq> {}"
      by (simp_all add: feeds_def Let_def)
    from ct obtain k q where kq: "(k, q) \<in> set (cell_ports (cell_at ctx (cell ?u)))"
      "port_type q = PORT_OUT" "port_net q = Some n" "getCellDelay ctx (cell ?u) (port ?u) k \<noteq> None"
      by (auto simp: comb_targets_def)
    have split: "rev order = rev (drop (Suc i) order) @ ?a # rev (take i order)"
      using id_take_nth_drop [OF i] by (metis rev.simps(2) rev_append append_assoc append_Cons append_Nil)
    have "take (Suc i) order = take i order @ [?a]"
      using i by (simp add: take_Suc_conv_app_nth)
    then have notin: "n \<notin> set (?a # rev (take i order))"
      using first by auto
    from backward_pass_upstream [OF bw [unfolded split] notin m refl unclk kq]
    have "budget (users (net_at ctx' ?a) ! m)
          \<le> getNetinfoRouteDelay ctx ?a (cell ?u) (port ?u)
             + budget_share ctx nd ?a (cell ?u) (port ?u) (min_remaining_budget (net_data_get nd n))" .
    also have "\<dots> \<le> getNetinfoRouteDelay ctx ?a (cell ?u) (port ?u)
             + budget_share ctx nd ?a (cell ?u) (port ?u) (terminus_remaining ctx nd n c p)"
      using budget_share_mono [OF 1] by simp
    finally show ?thesis by (simp add: Let_def)
  qed
  show ?thesis using 0 1 2 by blast
qed

theorem clocked_sink_constrains_upstream_witness:
  "\<exists>ms tm' ctx' nd nd0.
     walk_paths (Timing_new ex_fanout True False None None) ex_fanout = Inr (ms, tm', ctx', nd)
     \<and> linearize ex_fanout = Inr ([10, 11, 12], [], nd0)
     \<and> (3, 1) \<in> set (sinks ex_fanout 11) \<and> getPortClock ex_fanout 3 1 \<noteq> 0
     \<and> feeds ex_fanout 10 0 11
     \<and> (\<exists>usr' tms'.
           backward_user ex_fanout 11 2 \<lparr>cell = 3, port = 1, budget = 9000\<rparr>
             ([11 \<mapsto> \<lparr>max_arrival = 2800, max_path_length = 1, min_remaining_budget = 10000\<rparr>],
              Timing_new ex_fanout True False None None)
           = Inr (usr',
                  [11 \<mapsto> \<lparr>max_arrival = 2800, max_path_length = 1, min_remaining_budget = 1100\<rparr>],
                  tms'))
     \<and> terminus_remaining ex_fanout nd 11 3 1 = 1100
     \<and> min_remaining_budget (net_data_get nd 11) \<le> 1100
     \<and> budget (users (net_at ctx' 10) ! 0) \<le> 300 + 1100
     \<and> map budget (users (net_at ctx' 10)) = [1400]"
proof -
  obtain ms tm' ctx' nd where
    walk: "walk_paths (Timing_new ex_fanout True False None None) ex_fanout = Inr (ms, tm', ctx', nd)"
    and nd11: "nd 11 = Some \<lparr>max_arrival = 2800, max_path_length = 1, min_remaining_budget = 1100\<rparr>"
    and nd10: "nd 10 = Some \<lparr>max_arrival = 500, max_path_length = 0, min_remaining_budget = 0\<rparr>"
    and b: "map budget (users (net_at ctx' 10)) = [1400]"
    by (simp add: model_defs ex_fanout_defs)
  obtain nd0 where lin: "linearize ex_fanout = Inr ([10, 11, 12], [], nd0)"
    by (simp add: model_defs ex_fanout_defs)
  have n: "11 \<in> set [10, 11, 12 :: nat]" by simp
  have s: "(3, 1) \<in> set (sinks ex_fanout 11)" by (simp add: sinks_def ex_fanout_defs)
  have clk: "getPortClock ex_fanout 3 1 \<noteq> 0" by (simp add: ex_fanout_defs)
  have "comb_targets ex_fanout 2 1 (cell_ports (cell_at ex_fanout 2)) 11 = {2000}"
    by (auto simp: comb_targets_def ex_fanout_defs)
  then have f: "feeds ex_fanout 10 0 11"
    by (simp add: feeds_def ex_fanout_defs)
  have tr: "terminus_remaining ex_fanout nd 11 3 1 = 1100"
    using nd11
    by (simp add: terminus_remaining_def terminus_path_budget_def budget_share_def net_data_get_def
                  ex_fanout_defs)
  have bs: "budget_share ex_fanout nd 10 2 1 1100 = 1100"
    using nd10 by (simp add: budget_share_def net_data_get_def ex_fanout_defs)
  have u: "users (net_at ex_fanout 10) ! 0 = \<lparr>cell = 2, port = 1, budget = 9000\<rparr>"
    by (simp add: ex_fanout_defs)
  have r: "getNetinfoRouteDelay ex_fanout 10 2 1 = 300" by (simp add: ex_fanout_defs)
  note inst = clocked_sink_constrains_upstream [OF walk lin n s clk]
  let ?usr = "\<lparr>cell = 3, port = 1, budget = 9000\<rparr>"
  let ?d = "\<lparr>max_arrival = 2800, max_path_length = 1, min_remaining_budget = 10000\<rparr>"
  from inst have
    "cell ?usr = 3 \<and> port ?usr = 1 \<and> [11 \<mapsto> ?d] (11 :: nat) = Some ?d \<longrightarrow>
       (let path_budget = clk_period ex_fanout
                            - (max_arrival ?d + getNetinfoRouteDelay ex_fanout 11 3 1);
            share = (if getBudgetOverride ex_fanout 11 3 1 \<noteq> None then 0 else path_budget sdiv 2)
        in \<exists>usr' tms'. backward_user ex_fanout 11 2 ?usr
                             ([11 \<mapsto> ?d], Timing_new ex_fanout True False None None) =
             Inr (usr',
                  [11 \<mapsto> ?d](11 \<mapsto> ?d\<lparr>min_remaining_budget :=
                                   min (min_remaining_budget ?d) (path_budget - share)\<rparr>),
                  tms'))"
    by blast
  then have 0: "\<exists>usr' tms'.
           backward_user ex_fanout 11 2 \<lparr>cell = 3, port = 1, budget = 9000\<rparr>
             ([11 \<mapsto> \<lparr>max_arrival = 2800, max_path_length = 1, min_remaining_budget = 10000\<rparr>],
              Timing_new ex_fanout True False None None)
           = Inr (usr',
                  [11 \<mapsto> \<lparr>max_arrival = 2800, max_path_length = 1, min_remaining_budget = 1100\<rparr>],
                  tms')"
    by (simp add: Let_def ex_fanout_defs)
  from inst
  have 1: "min_remaining_budget (net_data_get nd 11) \<le> 1100"
    and 2: "\<And>i m. i < length [10, 11, 12 :: nat] \<Longrightarrow> 11 \<notin> set (take (Suc i) [10, 11, 12 :: nat]) \<Longrightarrow>
              feeds ex_fanout ([10, 11, 12] ! i) m 11 \<Longrightarrow>
              budget (users (net_at ctx' ([10, 11, 12] ! i)) ! m)
                \<le> (let u = users (net_at ex_fanout ([10, 11, 12] ! i)) ! m
                   in getNetinfoRouteDelay ex_fanout ([10, 11, 12] ! i) (cell u) (port u)
                      + budget_share ex_fanout nd ([10, 11, 12] ! i) (cell u) (port u) 1100)"
    unfolding tr by blast+
  from 2 [of 0 0] f r bs have 3: "budget (users (net_at ctx' 10) ! 0) \<le> 300 + 1100"
    by (simp add: u)
  show ?thesis
    by (rule exI [of _ ms], rule exI [of _ tm'], rule exI [of _ ctx'], rule exI [of _ nd],
        rule exI [of _ nd0])
       (intro conjI walk lin s clk f 0 tr 1 3 b)
qed

section \<open>Budget overrides\<close>

text \<open>
  Claim C6: a connection with a pinned budget override \<open>D\<close> has \<open>D\<close> as its realized delay in
  the forward and in the backward pass, gets no proportional share, so that in budgeting
  mode its budget is exactly \<open>D\<close>, and does not increment \<^verbatim>\<open>max_path_length\<close>.

  The forward pass does this (lines 227--229: \<^verbatim>\<open>getBudgetOverride\<close> writes \<open>D\<close> into
  \<^verbatim>\<open>net_delay\<close>), and so does the sibling \<^verbatim>\<open>follow_net\<close> (lines 66--70, which assigns the override
  to \<^verbatim>\<open>usr.budget\<close>).  The backward pass declares \<^verbatim>\<open>net_delay\<close> \<^verbatim>\<open>const\<close> (line 257), so the
  route delay stays in it and is what lines 261--263 and 281 use.  On the example with
  the overrides \<open>190\<close> and \<open>40\<close>, budgeting mode assigns the route delays \<open>300\<close> and \<open>100\<close>, and
  the slack at the register is \<open>10000 - (2690 + 100) = 7210\<close>, where the arrival \<open>2690\<close> does
  contain the override \<open>190\<close> of the first connection.
\<close>

theorem assign_budget_keeps_route_delay_of_pinned_sink:
  "getBudgetOverride ex_override 10 2 1 = Some 190
   \<and> getBudgetOverride ex_override 11 3 1 = Some 40
   \<and> (\<exists>ctx'. assign_budget ex_override = Inr ctx'
          \<and> map budget (users (net_at ctx' 10)) = [300]
          \<and> map budget (users (net_at ctx' 11)) = [100])
   \<and> (\<exists>tm ctx' nd. walk_paths (Timing_new ex_override False True None None) ex_override
                      = Inr (7210, tm, ctx', nd))"
  by (simp add: model_defs ex_defs ex_override_def)

section \<open>Invoking budgeting mode twice\<close>

text \<open>
  Claim C7: a second \<^verbatim>\<open>assign_budget\<close> right after the first, on the unchanged netlist and
  delay model, leaves no budget above its value after the first.

  \<^verbatim>\<open>assign_budget\<close> resets every budget to the maximum before the pass, so nothing of the
  first call's budgets is kept; and with \<^verbatim>\<open>auto_freq\<close> set and \<^verbatim>\<open>slack_redist_iter > 0\<close> it
  ends by replacing the target period by \<open>period - min_slack\<close> (lines 337--339).  On the
  example that misses its period of \<open>1000\<close> by \<open>1900\<close>, the second call runs at \<open>2900\<close> and
  raises the budgets from \<open>-650\<close> and \<open>-850\<close> to \<open>300\<close> and \<open>100\<close>.
\<close>

theorem assign_budget_twice_loosens:
  "\<exists>ctx1 ctx2. assign_budget ex_auto = Inr ctx1 \<and> assign_budget ctx1 = Inr ctx2
     \<and> clk_period ctx1 = 2900
     \<and> map budget (users (net_at ctx1 10)) = [-650]
     \<and> map budget (users (net_at ctx1 11)) = [-850]
     \<and> map budget (users (net_at ctx2 10)) = [300]
     \<and> map budget (users (net_at ctx2 11)) = [100]"
  by (simp add: model_defs ex_defs ex_auto_def retarget_2900)

text \<open>
  Claim C7, amended: when the first call leaves the target period as it is (\<^verbatim>\<open>auto_freq\<close>
  off, or \<^verbatim>\<open>slack_redist_iter = 0\<close>) and every net of the linear order is one of
  \<^verbatim>\<open>ctx->nets\<close> (so that it is reset), the second call returns the netlist of the first:
  every budget is recomputed to the same value.
\<close>

theorem assign_budget_twice_same:
  assumes run: "assign_budget ctx = Inr ctx1"
    and gate: "\<not> (auto_freq ctx \<and> slack_redist_iter ctx > 0)"
    and lin: "linearize ctx = Inr (order, fanin, nd0)"
    and closed: "set order \<subseteq> set (nets ctx)"
  shows "assign_budget ctx1 = Inr ctx1"
proof -
  let ?r = "reset_budgets ctx"
  let ?tm = "Timing_new ctx (slack_redist_iter ctx > 0) True None None"
  have sr: "same_netlist ctx ?r" by (rule reset_budgets_same_netlist)
  from run obtain ms tm' c2 nd2 where
    walk: "walk_paths ?tm ?r = Inr (ms, tm', c2, nd2)" and
    c1: "ctx1 = (if auto_freq c2 \<and> slack_redist_iter c2 > 0
                 then c2\<lparr>clk_period := retarget (clk_period c2 - min_slack tm')\<rparr> else c2)"
    by (auto simp: assign_budget_def Timing_assign_budget_def split: sum.splits)
  have lin_r: "linearize ?r = Inr (order, fanin, nd0)"
    using linearize_same_netlist [OF sr] lin by simp
  note fr = walk_paths_frame [OF walk lin_r]
  have s2: "same_netlist ctx c2" by (rule same_netlist_trans [OF sr fr(1)])
  then have keys: "\<And>n. sinks c2 n = sinks ctx n"
    unfolding same_netlist_def by blast
  from s2 obtain g where c2: "c2 = ctx\<lparr>net_at := g\<rparr>"
    unfolding same_netlist_def by blast
  have fields: "auto_freq c2 = auto_freq ctx" "slack_redist_iter c2 = slack_redist_iter ctx"
    "clk_period c2 = clk_period ctx" "nets c2 = nets ctx" "delay_t_max c2 = delay_t_max ctx"
    by (simp_all add: c2)
  have ctx1: "ctx1 = c2" using c1 gate by (simp add: fields)
  have tm: "Timing_new c2 (slack_redist_iter c2 > 0) True None None = ?tm"
    by (simp add: Timing_new_def fields)
  have users_eq: "users (net_at (reset_budgets c2) n) = users (net_at ?r n)" for n
  proof (cases "n \<in> set (nets ctx)")
    case True
    have "map (\<lambda>u. (cell u, port u)) (users (net_at c2 n))
          = map (\<lambda>u. (cell u, port u)) (users (net_at ctx n))"
      using keys [of n] by (simp add: sinks_def)
    from reset_map_key [OF this, of "delay_t_max ctx"] show ?thesis
      using True by (simp add: reset_budgets_users fields)
  next
    case False
    then have "n \<notin> set order" using closed by auto
    then have "net_at c2 n = net_at ?r n" by (rule fr(2))
    then show ?thesis
      using False by (simp add: reset_budgets_users fields)
  qed
  have na: "net_at (reset_budgets c2) = net_at ?r"
    by (intro ext NetInfo_eqI users_eq)
  have "same_netlist c2 (reset_budgets c2)" by (rule reset_budgets_same_netlist)
  then have "reset_budgets c2 = c2\<lparr>net_at := net_at ?r\<rparr>"
    unfolding same_netlist_def na by blast
  also have "\<dots> = ctx\<lparr>net_at := net_at ?r\<rparr>"
    by (simp add: c2)
  also have "\<dots> = ?r"
    using sr unfolding same_netlist_def by (elim conjE) (erule sym)
  finally have reset_eq: "reset_budgets c2 = ?r" .
  have "assign_budget c2 = Inr c2"
    unfolding assign_budget_def Timing_assign_budget_def tm reset_eq
    using gate by (auto simp: walk fields)
  then show ?thesis unfolding ctx1 .
qed

theorem assign_budget_twice_same_witness:
  "\<exists>ctx1 order fanin nd0.
     assign_budget ex_pipeline = Inr ctx1
     \<and> \<not> (auto_freq ex_pipeline \<and> slack_redist_iter ex_pipeline > 0)
     \<and> linearize ex_pipeline = Inr (order, fanin, nd0)
     \<and> set order \<subseteq> set (nets ex_pipeline)
     \<and> assign_budget ctx1 = Inr ctx1
     \<and> map budget (users (net_at ctx1 10)) = [3850]
     \<and> map budget (users (net_at ctx1 11)) = [3650]"
proof -
  obtain ctx1 where run: "assign_budget ex_pipeline = Inr ctx1"
    and b: "map budget (users (net_at ctx1 10)) = [3850]"
           "map budget (users (net_at ctx1 11)) = [3650]"
    by (simp add: model_defs ex_defs)
  have gate: "\<not> (auto_freq ex_pipeline \<and> slack_redist_iter ex_pipeline > 0)"
    by (simp add: ex_defs)
  obtain nd0 where lin: "linearize ex_pipeline = Inr ([10, 11], [], nd0)"
    by (simp add: model_defs ex_defs)
  have closed: "set [10, 11] \<subseteq> set (nets ex_pipeline)"
    by (simp add: ex_defs)
  show ?thesis
    by (rule exI [of _ ctx1], rule exI [of _ "[10, 11]"], rule exI [of _ "[]"], rule exI [of _ nd0])
       (intro conjI run gate lin closed b assign_budget_twice_same [OF run gate lin closed])
qed

section \<open>The linear order is topological\<close>

text \<open>
  Claim C8: for every acyclic netlist the sequence of nets produced by the dependency
  linearizer is a topological order of the combinational subgraph: whenever a net \<open>b\<close> is
  produced combinationally, through one cell, from a net \<open>a\<close> via an unclocked sink, \<open>a\<close>
  occurs before \<open>b\<close>.

  The order starts from the seeds, the nets of clocked outputs and of the outputs of IO
  cells (lines 169--179), and grows along combinational paths only.  In the first example
  there is no seed: the netlist is acyclic, net \<open>10\<close> feeds net \<open>11\<close>, and the order is empty.
  In the second example the net \<open>13\<close> of the IO cell is a seed and also has an in-degree
  (lines 176--185 do both): it is appended at the start and again when its in-degree
  reaches zero, so that it stands before net \<open>11\<close>, which feeds it.
\<close>

theorem linearize_skips_unreached_and_repeats_pad_nets:
  "wf_netlist ex_const
   \<and> comb_edge ex_const 10 11 \<and> \<not> comb_edge ex_const 11 10
   \<and> \<not> comb_edge ex_const 10 10 \<and> \<not> comb_edge ex_const 11 11
   \<and> (\<exists>nd. linearize ex_const = Inr ([], [((2, 2), 1)], nd))
   \<and> comb_edge ex_io 10 11 \<and> comb_edge ex_io 11 13
   \<and> \<not> comb_edge ex_io 11 10 \<and> \<not> comb_edge ex_io 13 11 \<and> \<not> comb_edge ex_io 13 10
   \<and> (\<exists>nd. linearize ex_io = Inr ([10, 13, 11, 13], [], nd))"
proof -
  have t1: "comb_targets ex_const 2 1 (cell_ports (cell_at ex_const 2)) n = (if n = 11 then {2000} else {})"
    for n
    by (auto simp: comb_targets_def ex_const_def ex_defs)
  have c: "comb_edge ex_const 10 11" "\<not> comb_edge ex_const 11 10"
    "\<not> comb_edge ex_const 10 10" "\<not> comb_edge ex_const 11 11"
    using t1 by (simp_all add: comb_edge_def sinks_def ex_const_def ex_defs)
  have l1: "\<exists>nd. linearize ex_const = Inr ([], [((2, 2), 1)], nd)"
    by (simp add: model_defs ex_const_def ex_defs)
  have t2: "comb_targets ex_io 2 1 (cell_ports (cell_at ex_io 2)) n = (if n = 11 then {2000} else {})"
    "comb_targets ex_io 4 1 (cell_ports (cell_at ex_io 4)) n = (if n = 13 then {1000} else {})"
    for n
    by (auto simp: comb_targets_def ex_io_defs)
  have e: "comb_edge ex_io 10 11" "comb_edge ex_io 11 13"
    "\<not> comb_edge ex_io 11 10" "\<not> comb_edge ex_io 13 11" "\<not> comb_edge ex_io 13 10"
    using t2 by (simp_all add: comb_edge_def sinks_def ex_io_defs)
  have l2: "\<exists>nd. linearize ex_io = Inr ([10, 13, 11, 13], [], nd)"
    by (simp add: model_defs ex_io_defs)
  show ?thesis
    by (intro conjI wf_ex_const c l1 e l2)
qed

text \<open>
  Claim C8, amended: on every well-formed netlist, acyclic or not, in which no seed
  output has a combinational path from an unclocked input of its cell, the linearizer
  returns a sequence that holds, once each, exactly the nets reachable from the seeds;
  and for every net \<open>b\<close> of the sequence, every net \<open>a\<close> of the netlist that feeds \<open>b\<close>
  combinationally via an unclocked sink occurs before \<open>b\<close>.
\<close>

theorem linearize_orders_reachable_nets:
  assumes wf: "wf_netlist ctx"
  shows "\<exists>order fanin nd. linearize ctx = Inr (order, fanin, nd)
           \<and> distinct order \<and> set order = {n. reachable ctx n}
           \<and> (\<forall>b\<in>set order. \<forall>a\<in>set (nets ctx). comb_edge ctx a b \<longrightarrow>
                  (\<exists>i j. i < j \<and> j < length order \<and> order ! i = a \<and> order ! j = b))"
proof -
  from linearize_complete [OF wf] obtain order fanin nd where
    lin: "linearize ctx = Inr (order, fanin, nd)" and
    inv: "kahn_inv ctx order (\<Union>n\<in>set order. events_of_net ctx n) (order, [], fanin)"
    by blast
  from inv have d: "distinct order" and prec: "precedes_ok ctx order"
    by (auto simp: kahn_inv_def)
  have "set order = {n. reachable ctx n}"
  proof (intro set_eqI iffI)
    fix n assume "n \<in> set order"
    then obtain j where "j < length order" "order ! j = n" by (auto simp: in_set_conv_nth)
    with order_reachable [OF wf inv, of j] show "n \<in> {n. reachable ctx n}" by simp
  next
    fix n assume "n \<in> {n. reachable ctx n}"
    then show "n \<in> set order" using reachable_in_order [OF inv] by simp
  qed
  moreover have "\<exists>i j. i < j \<and> j < length order \<and> order ! i = a \<and> order ! j = b"
    if b: "b \<in> set order" and a: "a \<in> set (nets ctx)" and e: "comb_edge ctx a b" for a b
  proof -
    from b obtain j where j: "j < length order" "order ! j = b"
      by (auto simp: in_set_conv_nth)
    have "a \<in> set (take j order)"
      using prec j a e by (auto simp: precedes_ok_def)
    then obtain i where i: "i < length (take j order)" "take j order ! i = a"
      by (auto simp: in_set_conv_nth)
    then have "i < j" "order ! i = a" by auto
    then show ?thesis using j by blast
  qed
  ultimately show ?thesis using lin d by blast
qed

theorem linearize_orders_reachable_nets_witness:
  "wf_netlist ex_fanout
   \<and> (\<exists>fanin nd. linearize ex_fanout = Inr ([10, 11, 12], fanin, nd))
   \<and> distinct [10, 11, 12 :: nat]
   \<and> set [10, 11, 12] = {n. reachable ex_fanout n}
   \<and> 11 \<in> set (nets ex_fanout) \<and> comb_edge ex_fanout 11 12
   \<and> (\<exists>i j. i < j \<and> j < length [10, 11, 12 :: nat] \<and> [10, 11, 12] ! i = (11 :: nat)
          \<and> [10, 11, 12] ! j = (12 :: nat))"
proof -
  from linearize_orders_reachable_nets [OF wf_ex_fanout] obtain order fanin nd where
    lin: "linearize ex_fanout = Inr (order, fanin, nd)" and
    d: "distinct order" and r: "set order = {n. reachable ex_fanout n}" and
    prec: "\<And>a b. b \<in> set order \<Longrightarrow> a \<in> set (nets ex_fanout) \<Longrightarrow> comb_edge ex_fanout a b \<Longrightarrow>
             \<exists>i j. i < j \<and> j < length order \<and> order ! i = a \<and> order ! j = b"
    by blast
  have "\<exists>nd. linearize ex_fanout = Inr ([10, 11, 12], [], nd)"
    by (simp add: model_defs ex_fanout_defs)
  with lin have order: "order = [10, 11, 12]" by auto
  have a: "11 \<in> set (nets ex_fanout)" by (simp add: ex_fanout_defs)
  have "comb_targets ex_fanout 4 1 (cell_ports (cell_at ex_fanout 4)) 12 = {1000}"
    by (auto simp: comb_targets_def ex_fanout_defs)
  then have e: "comb_edge ex_fanout 11 12"
    by (simp add: comb_edge_def sinks_def ex_fanout_defs)
  have b: "12 \<in> set order" by (simp add: order)
  from prec [OF b a e] d r lin wf_ex_fanout a e show ?thesis
    unfolding order by blast
qed

section \<open>Combinational cycles\<close>




end
